theory Spec2Isabelle
  imports Complex_Main "HOL-Library.Log_Nat"
begin

section \<open>Rolling-ball tutorial: forward simulator and kinematic fit\<close>

text \<open>
  The notebook \<^verbatim>\<open>Tutorial1.ipynb\<close> computes with Python floats. The embedding gives the
  forward simulator two readings. In the first every float is the real number it denotes
  and every operation is the exact operation on reals; all literals of the notebook are
  decimal fractions, so every value of that reading is rational and its definitions
  evaluate by rewriting. It describes the structure of the computation and the values on
  the notebook's data, where rounding stays many orders of magnitude below the figures
  that are compared. In the second reading (\<open>restingPosition_f64\<close>) the values are IEEE
  doubles and every operation rounds: it is the one used for statements about all inputs,
  where rounding decides whether the loop ends and whether the position moves.
\<close>

subsection \<open>The forward simulator\<close>

text \<open>
  \<^verbatim>\<open>
  def restingPosition(s, v, alpha):
      g = 9.8 # gravitational acceleration
      a = alpha*g # acceleration
      dt = 0.001 # time step

      while(v < 0):
        s = s + v*dt;
        v = v + a*dt;
      return s;
  \<close>
  One pass through the loop body is \<open>euler_step\<close>: the position is advanced with the
  velocity held before the pass, then the velocity is advanced. The loop is a partial
  function on the pair \<open>(s, v)\<close>: a run that never leaves the loop has the value
  \<open>None\<close>. The last argument counts the passes made so far; it is not a variable of
  the source and does not influence the returned position.
\<close>

definition euler_step :: "real \<Rightarrow> real \<Rightarrow> real \<times> real \<Rightarrow> real \<times> real" where
  "euler_step a dt st = (fst st + snd st * dt, snd st + a * dt)"

partial_function (option)
  euler_loop :: "real \<Rightarrow> real \<Rightarrow> real \<times> real \<Rightarrow> nat \<Rightarrow> (real \<times> nat) option"
where
  "euler_loop a dt st k =
     (if snd st < 0 then euler_loop a dt (euler_step a dt st) (Suc k)
      else Some (fst st, k))"

definition restingPosition :: "real \<Rightarrow> real \<Rightarrow> real \<Rightarrow> real option" where
  "restingPosition s v alpha =
     (let g = 9.8; a = alpha * g; dt = 0.001
      in map_option fst (euler_loop a dt (s, v) 0))"

text \<open>The number of passes through the loop body in a run of \<open>restingPosition\<close>.\<close>

definition restingIterations :: "real \<Rightarrow> real \<Rightarrow> real \<Rightarrow> nat option" where
  "restingIterations s v alpha =
     (let g = 9.8; a = alpha * g; dt = 0.001
      in map_option snd (euler_loop a dt (s, v) 0))"

text \<open>
  The pair \<open>(s, v)\<close> held by \<open>restingPosition s v alpha\<close> after \<open>n\<close> passes through
  the loop body (whether or not the loop would have stopped before).
\<close>

definition sim_state :: "real \<Rightarrow> real \<Rightarrow> real \<Rightarrow> nat \<Rightarrow> real \<times> real" where
  "sim_state s v alpha n =
     (let g = 9.8; a = alpha * g; dt = 0.001
      in (euler_step a dt ^^ n) (s, v))"

text \<open>
  Two auxiliary quantities for a braking run (\<open>v < 0\<close>, \<open>a > 0\<close>): the number of passes
  after which the velocity \<open>v + n * a * dt\<close> is first non-negative, and the displacement
  accumulated by \<open>n\<close> passes of the loop body.
\<close>

definition stop_steps :: "real \<Rightarrow> real \<Rightarrow> real \<Rightarrow> nat" where
  "stop_steps a dt v = nat \<lceil>- v / (a * dt)\<rceil>"

definition travel :: "real \<Rightarrow> real \<Rightarrow> real \<Rightarrow> nat \<Rightarrow> real" where
  "travel a dt v n = real n * v * dt + a * dt * dt * (real n * (real n - 1) / 2)"

subsection \<open>The closed-form resting position\<close>

text \<open>
  \<^verbatim>\<open>
  s0 = 0.61802083
  u = -0.34818452
  alpha = 0.01062925
  g= 9.8

  sr = s0 - u*u/(2*alpha*g)
  \<close>
  The expression is a function of the four variables it reads; the literals of the cell
  are the constants \<open>sr_s0\<close>, \<open>sr_u\<close>, \<open>sr_alpha\<close> and \<open>g_const\<close>. A division by
  zero raises \<open>ZeroDivisionError\<close> in Python and yields \<open>0\<close> in HOL: \<open>sr\<close> is used
  below only where \<open>2 * alpha * g\<close> is not zero.
\<close>

definition g_const :: real where
  "g_const = 9.8"

definition sr :: "real \<Rightarrow> real \<Rightarrow> real \<Rightarrow> real \<Rightarrow> real" where
  "sr s0 u alpha g = s0 - u * u / (2 * alpha * g)"

definition sr_s0 :: real where "sr_s0 = 0.61802083"
definition sr_u :: real where "sr_u = - 0.34818452"
definition sr_alpha :: real where "sr_alpha = 0.01062925"


subsection \<open>The measurements and the two-point estimate\<close>

text \<open>
  \<^verbatim>\<open>
  data = [0.6180, 0.6111, 0.6042, 0.5973, 0.5905, 0.5837, 0.5770, 0.5703]

  frame_period = 1.0/50.0
  g = 9.8
  s = data[0]
  v0 = (data[1] - data[0])/frame_period
  v1 = (data[7] - data[6])/frame_period
  alpha = (v1-v0)/(6*frame_period*g)
  ... restingPosition(s,v0,alpha)
  \<close>
  The variables \<open>s\<close>, \<open>v0\<close>, \<open>v1\<close> and \<open>alpha\<close> of this cell are \<open>est_s\<close>, \<open>est_v0\<close>,
  \<open>est_v1\<close> and \<open>est_alpha\<close>; the global \<open>g\<close> is \<open>g_const\<close>. All list indices are within
  the eight measurements.
\<close>

definition data :: "real list" where
  "data = [0.6180, 0.6111, 0.6042, 0.5973, 0.5905, 0.5837, 0.5770, 0.5703]"

definition frame_period :: real where
  "frame_period = 1 / 50"

definition est_s :: real where
  "est_s = data ! 0"

definition est_v0 :: real where
  "est_v0 = (data ! 1 - data ! 0) / frame_period"

definition est_v1 :: real where
  "est_v1 = (data ! 7 - data ! 6) / frame_period"

definition est_alpha :: real where
  "est_alpha = (est_v1 - est_v0) / (6 * frame_period * g_const)"

subsection \<open>The kinematic fit\<close>

text \<open>
  \<^verbatim>\<open>
  t = np.array([0, 1.0/50, 2.0/50, 3.0/50, 4.0/50, 5.0/50, 6.0/50, 7.0/50])

  X = np.vstack([np.ones(len(t)), t, 0.5*g*t*t]).T
  Y = np.array(data).T
  B = np.linalg.lstsq(X, Y)[0]
  \<close>
  A vector of three reals is \<open>vec3\<close>; the matrix \<open>X\<close> is the list of its rows, one
  row \<open>(1, t\<^sub>n, 0.5 * g * t\<^sub>n * t\<^sub>n)\<close> per sample time. The cell is read as a function
  \<open>kinematic_fit\<close> of the three variables it uses: the constant \<open>g\<close>, the time vector \<open>t\<close>
  and the measurements. The literal time vector of the cell is \<open>fit_t\<close>, and
  \<open>sample_times period N\<close> is the vector of the first \<open>N\<close> multiples of a sampling period,
  of which \<open>fit_t\<close> is the instance with period \<open>1 / 50\<close> and \<open>N = 8\<close>. A later revision of
  the cell obtains \<open>B\<close> from \<^verbatim>\<open>LinearRegression(False).fit(X,Y).coef_\<close>, the same
  least-squares problem without intercept.
\<close>

type_synonym vec3 = "real \<times> real \<times> real"

type_synonym mat3 = "vec3 \<times> vec3 \<times> vec3"

definition design_matrix :: "real \<Rightarrow> real list \<Rightarrow> vec3 list" where
  "design_matrix g t = map (\<lambda>tn. (1, tn, 0.5 * g * tn * tn)) t"

definition fit_t :: "real list" where
  "fit_t = [0, 1 / 50, 2 / 50, 3 / 50, 4 / 50, 5 / 50, 6 / 50, 7 / 50]"

definition sample_times :: "real \<Rightarrow> nat \<Rightarrow> real list" where
  "sample_times period N = map (\<lambda>n. real n * period) [0..<N]"

text \<open>
  The equation of motion that the notebook fits,
  \<open>s = s\<^sub>0 + u t + \<^sup>1/\<^sub>2 \<alpha> g t\<^sup>2\<close>.
\<close>

definition model_position :: "real \<Rightarrow> real \<Rightarrow> real \<Rightarrow> real \<Rightarrow> real \<Rightarrow> real" where
  "model_position s0 u alpha g t = s0 + u * t + 1 / 2 * alpha * g * t ^ 2"

text \<open>Arithmetic of vectors and of 3 by 3 matrices (a triple of rows).\<close>

fun dot3 :: "vec3 \<Rightarrow> vec3 \<Rightarrow> real" where
  "dot3 (a1, a2, a3) (b1, b2, b3) = a1 * b1 + a2 * b2 + a3 * b3"

fun scale3 :: "real \<Rightarrow> vec3 \<Rightarrow> vec3" where
  "scale3 k (a1, a2, a3) = (k * a1, k * a2, k * a3)"

fun add3 :: "vec3 \<Rightarrow> vec3 \<Rightarrow> vec3" where
  "add3 (a1, a2, a3) (b1, b2, b3) = (a1 + b1, a2 + b2, a3 + b3)"

fun sub3 :: "vec3 \<Rightarrow> vec3 \<Rightarrow> vec3" where
  "sub3 (a1, a2, a3) (b1, b2, b3) = (a1 - b1, a2 - b2, a3 - b3)"

fun outer3 :: "vec3 \<Rightarrow> mat3" where
  "outer3 (a1, a2, a3) =
     ((a1 * a1, a1 * a2, a1 * a3), (a2 * a1, a2 * a2, a2 * a3), (a3 * a1, a3 * a2, a3 * a3))"

fun madd3 :: "mat3 \<Rightarrow> mat3 \<Rightarrow> mat3" where
  "madd3 (r1, r2, r3) (q1, q2, q3) = (add3 r1 q1, add3 r2 q2, add3 r3 q3)"

fun mv3 :: "mat3 \<Rightarrow> vec3 \<Rightarrow> vec3" where
  "mv3 (r1, r2, r3) v = (dot3 r1 v, dot3 r2 v, dot3 r3 v)"

fun det3 :: "mat3 \<Rightarrow> real" where
  "det3 ((a11, a12, a13), (a21, a22, a23), (a31, a32, a33)) =
     a11 * (a22 * a33 - a23 * a32) - a12 * (a21 * a33 - a23 * a31)
       + a13 * (a21 * a32 - a22 * a31)"

fun adj3 :: "mat3 \<Rightarrow> mat3" where
  "adj3 ((a11, a12, a13), (a21, a22, a23), (a31, a32, a33)) =
     ((a22 * a33 - a23 * a32, a13 * a32 - a12 * a33, a12 * a23 - a13 * a22),
      (a23 * a31 - a21 * a33, a11 * a33 - a13 * a31, a13 * a21 - a11 * a23),
      (a21 * a32 - a22 * a31, a12 * a31 - a11 * a32, a11 * a22 - a12 * a21))"

fun trace3 :: "mat3 \<Rightarrow> real" where
  "trace3 ((a11, a12, a13), (a21, a22, a23), (a31, a32, a33)) = a11 + a22 + a33"

text \<open>
  The matrix \<open>X\<^sup>T X\<close> and the vector \<open>X\<^sup>T Y\<close> of the normal equations, and the sum of
  squared residuals of a coefficient vector \<open>B\<close>.
\<close>

fun gram :: "vec3 list \<Rightarrow> mat3" where
  "gram [] = ((0, 0, 0), (0, 0, 0), (0, 0, 0))"
| "gram (r # X) = madd3 (outer3 r) (gram X)"

fun xty :: "vec3 list \<Rightarrow> real list \<Rightarrow> vec3" where
  "xty (r # X) (y # Y) = add3 (scale3 y r) (xty X Y)"
| "xty _ _ = (0, 0, 0)"

fun ssr :: "vec3 list \<Rightarrow> real list \<Rightarrow> vec3 \<Rightarrow> real" where
  "ssr (r # X) (y # Y) B = (dot3 r B - y)\<^sup>2 + ssr X Y B"
| "ssr _ _ B = 0"

text \<open>
  \<^verbatim>\<open>np.linalg.lstsq\<close> is library code, not part of the notebook. Its documented
  contract is taken here in exact arithmetic: it raises \<^verbatim>\<open>LinAlgError\<close> when \<open>X\<close> and \<open>Y\<close>
  do not have the same number of rows, and otherwise returns the least-squares solution
  of \<open>X B = Y\<close>, the one of least Euclidean norm when \<open>X\<close> is rank deficient. It has no
  other failure: a system with fewer rows than unknowns is solved like any other.
  The library decides the rank in doubles, treating singular values below a small
  multiple of the largest as zero; the exact reading agrees with it where the design
  matrix is well conditioned, as it is at the notebook's sample times, and is not used
  for statements about all design matrices.

  \<open>min_norm_solve G c\<close> applies the pseudo-inverse of a symmetric positive semi-definite
  \<open>G\<close> to \<open>c\<close>. With \<open>e1\<close>, \<open>e2\<close>, \<open>e3\<close> the coefficients of the characteristic polynomial of
  \<open>G\<close> (trace, sum of the principal minors, determinant), the pseudo-inverse is
  \<open>adj G / e3\<close> for rank 3, \<open>((e1\<^sup>2 - e2) G - e1 G\<^sup>2) / e2\<^sup>2\<close> for rank 2, \<open>G / e1\<^sup>2\<close> for
  rank 1 and \<open>0\<close> for rank 0. That \<open>lstsq\<close> so defined returns a minimiser of the sum of
  squared residuals, of least norm among the minimisers, is
  \<open>lstsq_min_norm_least_squares\<close> below.
\<close>

definition min_norm_solve :: "mat3 \<Rightarrow> vec3 \<Rightarrow> vec3" where
  "min_norm_solve G c =
     (let e1 = trace3 G; e2 = trace3 (adj3 G); e3 = det3 G in
      if e3 \<noteq> 0 then scale3 (1 / e3) (mv3 (adj3 G) c)
      else if e2 \<noteq> 0 then
        scale3 (1 / (e2 * e2))
          (add3 (scale3 (e1 * e1 - e2) (mv3 G c)) (scale3 (- e1) (mv3 G (mv3 G c))))
      else if e1 \<noteq> 0 then scale3 (1 / (e1 * e1)) (mv3 G c)
      else (0, 0, 0))"

datatype np_error = LinAlgError

definition lstsq :: "vec3 list \<Rightarrow> real list \<Rightarrow> np_error + vec3" where
  "lstsq X Y =
     (if length X \<noteq> length Y then Inl LinAlgError
      else Inr (min_norm_solve (gram X) (xty X Y)))"

definition kinematic_fit :: "real \<Rightarrow> real list \<Rightarrow> real list \<Rightarrow> np_error + vec3" where
  "kinematic_fit g t ys = lstsq (design_matrix g t) ys"




subsection \<open>The forward simulator in double precision\<close>

text \<open>
  A Python float is an IEEE 754 binary64 number. \<open>dbl\<close> is the set of its values: the
  finite ones, given by the real number they denote, the two infinities and not-a-number
  (the sign of zero is not kept: no operation of the simulator distinguishes the two
  zeros). A finite double is an integer multiple of \<open>2 ^ (e - 52)\<close> when its magnitude
  lies in \<open>[2 ^ e, 2 ^ (e + 1))\<close> with \<open>e \<ge> -1022\<close>, and of \<open>2 ^ (-1074)\<close> below
  \<open>2 ^ (-1022)\<close>; \<open>quantum x\<close> is that spacing at a real \<open>x\<close>, with \<open>ilog2 x\<close> the integer
  part of the binary logarithm.
  \<open>rnd x\<close> is the double nearest to \<open>x\<close>, the one with even significand when two are
  equally near, and an infinity when the rounded magnitude reaches \<open>2 ^ 1024\<close>. Every
  arithmetic operation of Python on floats returns the exact result rounded by \<open>rnd\<close>
  and raises nothing; a decimal literal denotes the \<open>rnd\<close> of its decimal value.
\<close>

definition ilog2 :: "real \<Rightarrow> int" where
  "ilog2 x = (if 1 \<le> x then bitlen \<lfloor>x\<rfloor> - 1 else - bitlen (\<lceil>1 / x\<rceil> - 1))"

definition qexp :: "real \<Rightarrow> int" where
  "qexp x = (if \<bar>x\<bar> < 2 powi (- 1022) then - 1074 else ilog2 \<bar>x\<bar> - 52)"

definition quantum :: "real \<Rightarrow> real" where
  "quantum x = 2 powi qexp x"

definition round_even :: "real \<Rightarrow> int" where
  "round_even q =
     (let f = \<lfloor>q\<rfloor>; r = q - of_int f
      in if r < 1 / 2 then f else if 1 / 2 < r then f + 1 else if even f then f else f + 1)"

definition round_to_grid :: "real \<Rightarrow> real" where
  "round_to_grid x = of_int (round_even (x / quantum x)) * quantum x"

datatype dbl = Fin real | PInf | MInf | NaN

definition rnd :: "real \<Rightarrow> dbl" where
  "rnd x =
     (let y = round_to_grid x
      in if 2 powi 1024 \<le> \<bar>y\<bar> then (if 0 < x then PInf else MInf) else Fin y)"

text \<open>The reals that are finite doubles, and the order of doubles (false on not-a-number).\<close>

definition is_double :: "real \<Rightarrow> bool" where
  "is_double x \<longleftrightarrow> rnd x = Fin x"

fun dbl_le :: "dbl \<Rightarrow> dbl \<Rightarrow> bool" where
  "dbl_le NaN _ = False"
| "dbl_le _ NaN = False"
| "dbl_le MInf _ = True"
| "dbl_le _ PInf = True"
| "dbl_le (Fin x) (Fin y) = (x \<le> y)"
| "dbl_le _ _ = False"

text \<open>
  Addition, multiplication and the comparison \<^verbatim>\<open>v < 0\<close> of Python floats. An infinity
  added to the opposite infinity, and an infinity multiplied by zero, give not-a-number;
  every comparison with not-a-number is false.
\<close>

fun dbl_add :: "dbl \<Rightarrow> dbl \<Rightarrow> dbl" where
  "dbl_add (Fin x) (Fin y) = rnd (x + y)"
| "dbl_add NaN _ = NaN"
| "dbl_add _ NaN = NaN"
| "dbl_add PInf MInf = NaN"
| "dbl_add MInf PInf = NaN"
| "dbl_add PInf _ = PInf"
| "dbl_add _ PInf = PInf"
| "dbl_add MInf _ = MInf"
| "dbl_add _ MInf = MInf"

fun dbl_scale_inf :: "bool \<Rightarrow> real \<Rightarrow> dbl" where
  "dbl_scale_inf positive y =
     (if y = 0 then NaN else if (0 < y) = positive then PInf else MInf)"

fun dbl_mul :: "dbl \<Rightarrow> dbl \<Rightarrow> dbl" where
  "dbl_mul (Fin x) (Fin y) = rnd (x * y)"
| "dbl_mul NaN _ = NaN"
| "dbl_mul _ NaN = NaN"
| "dbl_mul PInf (Fin y) = dbl_scale_inf True y"
| "dbl_mul MInf (Fin y) = dbl_scale_inf False y"
| "dbl_mul (Fin x) PInf = dbl_scale_inf True x"
| "dbl_mul (Fin x) MInf = dbl_scale_inf False x"
| "dbl_mul PInf PInf = PInf"
| "dbl_mul MInf MInf = PInf"
| "dbl_mul PInf MInf = MInf"
| "dbl_mul MInf PInf = MInf"

fun dbl_below_zero :: "dbl \<Rightarrow> bool" where
  "dbl_below_zero (Fin x) = (x < 0)"
| "dbl_below_zero MInf = True"
| "dbl_below_zero PInf = False"
| "dbl_below_zero NaN = False"

text \<open>
  \<open>restingPosition\<close> once more, statement by statement, on doubles: \<open>g\<close> and \<open>dt\<close> are the
  doubles of the literals \<^verbatim>\<open>9.8\<close> and \<^verbatim>\<open>0.001\<close>, and each product and each sum is rounded
  where the source computes it. As before the loop is a partial function, \<open>None\<close> for a
  run that never leaves it, and the last argument counts the passes.
\<close>

definition euler_step_f64 :: "dbl \<Rightarrow> dbl \<Rightarrow> dbl \<times> dbl \<Rightarrow> dbl \<times> dbl" where
  "euler_step_f64 a dt st =
     (dbl_add (fst st) (dbl_mul (snd st) dt), dbl_add (snd st) (dbl_mul a dt))"

partial_function (option)
  euler_loop_f64 :: "dbl \<Rightarrow> dbl \<Rightarrow> dbl \<times> dbl \<Rightarrow> nat \<Rightarrow> (dbl \<times> nat) option"
where
  "euler_loop_f64 a dt st k =
     (if dbl_below_zero (snd st) then euler_loop_f64 a dt (euler_step_f64 a dt st) (Suc k)
      else Some (fst st, k))"

definition restingPosition_f64 :: "dbl \<Rightarrow> dbl \<Rightarrow> dbl \<Rightarrow> dbl option" where
  "restingPosition_f64 s v alpha =
     (let g = rnd 9.8; a = dbl_mul alpha g; dt = rnd 0.001
      in map_option fst (euler_loop_f64 a dt (s, v) 0))"

text \<open>The number of passes through the loop body in a run on doubles.\<close>

definition restingIterations_f64 :: "dbl \<Rightarrow> dbl \<Rightarrow> dbl \<Rightarrow> nat option" where
  "restingIterations_f64 s v alpha =
     (let g = rnd 9.8; a = dbl_mul alpha g; dt = rnd 0.001
      in map_option snd (euler_loop_f64 a dt (s, v) 0))"

text \<open>
  The rounding that a run of \<open>n\<close> passes from \<open>(s0, u)\<close> to the position \<open>r\<close> can
  accumulate, for the comparison with the closed form. Here \<open>t\<close> is the double of
  \<^verbatim>\<open>0.001\<close> and \<open>c\<close> the double \<open>(alpha * g) * dt\<close> that a pass adds to the velocity.
  \<open>G\<close> bounds the error of one velocity update: the distance of \<open>c\<close> from
  \<open>alpha * 9.8 * 0.001\<close> plus half the spacing of the doubles at the larger of \<open>\<bar>u\<bar>\<close> and
  \<open>c\<close>; \<open>E = n * G\<close> bounds the error of the velocity after \<open>n\<close> passes; \<open>esp\<close> bounds the
  rounding of one position update: half the spacing at the larger of \<open>\<bar>s0\<bar>\<close> and \<open>\<bar>r\<bar>\<close>
  for the sum and half the spacing at \<open>u * t\<close> for the product. The summands are the
  position roundings and the error of \<open>t\<close> over the \<open>n\<close> passes, the effect of the
  velocity errors on the positions, and the effect of the velocity error on the pass at
  which the loop stops.
\<close>

definition rounding_slack ::
  "real \<Rightarrow> real \<Rightarrow> real \<Rightarrow> real \<Rightarrow> real \<Rightarrow> real \<Rightarrow> nat \<Rightarrow> real" where
  "rounding_slack s0 u alpha t c r n =
     (let A = alpha * 9.8; h = 0.001;
          G = \<bar>c - A * h\<bar> + max (quantum u) (quantum c) / 2;
          E = real n * G;
          M = max \<bar>u\<bar> E;
          esp = max (quantum s0) (quantum r) / 2 + quantum (u * t) / 2
      in real n * (esp + \<bar>u\<bar> * \<bar>t - h\<bar>) + h * G * (real n * (real n - 1) / 2)
           + h * (M - \<bar>u\<bar>) / 2 + E * M / (2 * A))"

text \<open>
  Auxiliary notions for the proofs about the loop on doubles: \<open>at_most b d\<close> says that the
  double \<open>d\<close> is minus infinity or a finite double not above \<open>b\<close>; \<open>steps_left d\<close> is the
  number of steps of the finest spacing \<open>2 ^ (-1074)\<close> between a negative velocity and
  zero, which bounds the number of passes the loop can still make; \<open>fin_val d\<close> is the real
  value of a finite double.
\<close>

definition at_most :: "real \<Rightarrow> dbl \<Rightarrow> bool" where
  "at_most b d = (case d of MInf \<Rightarrow> True | Fin y \<Rightarrow> y \<le> b \<and> is_double y | _ \<Rightarrow> False)"

definition fin_val :: "dbl \<Rightarrow> real" where
  "fin_val d = (case d of Fin x \<Rightarrow> x | _ \<Rightarrow> 0)"

definition grid_scale :: real where
  "grid_scale = 2 powi 1074"

definition steps_left :: "dbl \<Rightarrow> nat" where
  "steps_left d = (case d of Fin w \<Rightarrow> nat \<lceil>- w * grid_scale\<rceil> | _ \<Rightarrow> 0)"

text \<open>The starting position \<open>3 * 2 ^ 44\<close>, where doubles are \<open>2 ^ (-7)\<close> apart.\<close>

definition big_start :: real where
  "big_start = 52776558133248"

section \<open>The integration loop\<close>

lemma steps_closed:
  "(euler_step a dt ^^ n) (s, v) =
     (s + real n * v * dt + a * dt * dt * (real n * (real n - 1) / 2), v + real n * a * dt)"
proof (induction n)
  case 0
  show ?case by simp
next
  case (Suc n)
  have "(euler_step a dt ^^ Suc n) (s, v) = euler_step a dt ((euler_step a dt ^^ n) (s, v))"
    by simp
  also have "\<dots> = euler_step a dt
      (s + real n * v * dt + a * dt * dt * (real n * (real n - 1) / 2), v + real n * a * dt)"
    by (simp only: Suc)
  also have "\<dots> =
      (s + real (Suc n) * v * dt + a * dt * dt * (real (Suc n) * (real (Suc n) - 1) / 2),
       v + real (Suc n) * a * dt)"
    by (simp add: euler_step_def field_simps)
  finally show ?case .
qed

lemma loop_stop: "0 \<le> snd st \<Longrightarrow> euler_loop a dt st k = Some (fst st, k)"
  by (subst euler_loop.simps) simp

lemma loop_run:
  "(\<forall>j<n. snd ((euler_step a dt ^^ j) st) < 0) \<Longrightarrow>
     euler_loop a dt st k = euler_loop a dt ((euler_step a dt ^^ n) st) (k + n)"
proof (induction n arbitrary: st k)
  case 0
  show ?case by simp
next
  case (Suc n)
  have neg: "snd st < 0" using Suc.prems by (auto dest: spec[of _ 0])
  have rest: "\<forall>j<n. snd ((euler_step a dt ^^ j) (euler_step a dt st)) < 0"
  proof (intro allI impI)
    fix j assume "j < n"
    then have "snd ((euler_step a dt ^^ Suc j) st) < 0" using Suc.prems by auto
    then show "snd ((euler_step a dt ^^ j) (euler_step a dt st)) < 0"
      by (simp add: funpow_swap1)
  qed
  have "euler_loop a dt st k = euler_loop a dt (euler_step a dt st) (Suc k)"
    using neg by (subst euler_loop.simps) simp
  also have "\<dots> = euler_loop a dt ((euler_step a dt ^^ n) (euler_step a dt st)) (Suc k + n)"
    by (rule Suc.IH[OF rest])
  finally show ?case by (simp add: funpow_swap1)
qed

lemma loop_first:
  assumes "0 \<le> snd ((euler_step a dt ^^ n) st)"
    and "\<forall>j<n. snd ((euler_step a dt ^^ j) st) < 0"
  shows "euler_loop a dt st k = Some (fst ((euler_step a dt ^^ n) st), k + n)"
  using loop_run[OF assms(2)] loop_stop[OF assms(1)] by simp

lemma loop_Some_reaches:
  assumes "euler_loop a dt st k = Some r"
  shows "\<exists>n. 0 \<le> snd ((euler_step a dt ^^ n) st)"
proof (rule euler_loop.raw_induct
    [where P = "\<lambda>a dt st k r. \<exists>n. 0 \<le> snd ((euler_step a dt ^^ n) st)", OF _ assms])
  fix f :: "real \<Rightarrow> real \<Rightarrow> real \<times> real \<Rightarrow> nat \<Rightarrow> (real \<times> nat) option"
  fix a dt st k r
  assume IH: "\<And>a dt st k r. f a dt st k = Some r \<Longrightarrow>
      \<exists>n. 0 \<le> snd ((euler_step a dt ^^ n) st)"
    and body: "(if snd st < 0 then f a dt (euler_step a dt st) (Suc k)
      else Some (fst st, k)) = Some r"
  show "\<exists>n. 0 \<le> snd ((euler_step a dt ^^ n) st)"
  proof (cases "snd st < 0")
    case True
    with body have "f a dt (euler_step a dt st) (Suc k) = Some r" by simp
    from IH[OF this] obtain n
      where "0 \<le> snd ((euler_step a dt ^^ n) (euler_step a dt st))" ..
    then have "0 \<le> snd ((euler_step a dt ^^ Suc n) st)" by (simp add: funpow_swap1)
    then show ?thesis ..
  next
    case False
    then have "0 \<le> snd ((euler_step a dt ^^ 0) st)" by simp
    then show ?thesis ..
  qed
qed

lemma loop_None:
  assumes "\<forall>n. snd ((euler_step a dt ^^ n) st) < 0"
  shows "euler_loop a dt st k = None"
proof (cases "euler_loop a dt st k")
  case None
  then show ?thesis .
next
  case (Some r)
  from loop_Some_reaches[OF Some] obtain n where "0 \<le> snd ((euler_step a dt ^^ n) st)" ..
  with assms show ?thesis by (auto simp: not_le[symmetric])
qed



lemma ceil_steps:
  fixes x :: real
  assumes "0 < x"
  shows "1 \<le> nat \<lceil>x\<rceil>" and "x \<le> real (nat \<lceil>x\<rceil>)" and "real (nat \<lceil>x\<rceil>) < x + 1"
proof -
  have pos: "0 < \<lceil>x\<rceil>" using assms by simp
  then show "1 \<le> nat \<lceil>x\<rceil>" by linarith
  have eq: "real (nat \<lceil>x\<rceil>) = of_int \<lceil>x\<rceil>" using pos by simp
  show "x \<le> real (nat \<lceil>x\<rceil>)" unfolding eq by (rule le_of_int_ceiling)
  show "real (nat \<lceil>x\<rceil>) < x + 1" unfolding eq by linarith
qed

lemma braking_facts:
  fixes v a dt :: real
  assumes v: "v < 0" and a: "0 < a" and dt: "0 < dt"
  defines "x \<equiv> - v / (a * dt)"
  defines "N \<equiv> real (stop_steps a dt v)"
  shows "0 < x" and "v = - (x * (a * dt))" and "1 \<le> N" and "x \<le> N" and "N < x + 1"
proof -
  have adt: "0 < a * dt" using a dt by simp
  show x: "0 < x" unfolding x_def using v adt by (simp add: field_simps)
  have adt0: "a * dt \<noteq> 0" using a dt by simp
  have "x * (a * dt) = - v" unfolding x_def using adt0 by simp
  then show "v = - (x * (a * dt))" by simp
  show "x \<le> N" and "N < x + 1"
    unfolding N_def stop_steps_def x_def[symmetric] using ceil_steps[OF x] by simp_all
  have "1 \<le> nat \<lceil>x\<rceil>" using ceil_steps(1)[OF x] .
  then show "1 \<le> N" unfolding N_def stop_steps_def x_def[symmetric] by simp
qed

lemma loop_braking:
  assumes v: "v < 0" and a: "0 < a" and dt: "0 < dt"
  shows "euler_loop a dt (s, v) k =
     Some (s + travel a dt v (stop_steps a dt v), k + stop_steps a dt v)"
proof -
  define x where "x = - v / (a * dt)"
  define N where "N = stop_steps a dt v"
  note f = braking_facts[OF v a dt, folded x_def, folded N_def]
  have adt: "0 < a * dt" using a dt by simp
  have stop: "0 \<le> snd ((euler_step a dt ^^ N) (s, v))"
  proof -
    have "0 \<le> (real N - x) * (a * dt)" using f(4) adt by simp
    then show ?thesis by (subst f(2)) (simp add: steps_closed algebra_simps)
  qed
  have run: "\<forall>j<N. snd ((euler_step a dt ^^ j) (s, v)) < 0"
  proof (intro allI impI)
    fix j assume "j < N"
    then have "real j + 1 \<le> real N" by linarith
    with f(5) have "real j < x" by linarith
    then have "(real j - x) * (a * dt) < 0" using adt by (simp add: mult_less_0_iff)
    then show "snd ((euler_step a dt ^^ j) (s, v)) < 0"
      by (subst f(2)) (simp add: steps_closed algebra_simps)
  qed
  show ?thesis
    using loop_first[OF stop run, of k]
    by (simp add: steps_closed N_def travel_def)
qed

lemma loop_runaway:
  assumes v: "v < 0" and a: "a \<le> 0" and dt: "0 < dt"
  shows "euler_loop a dt (s, v) k = None"
proof (rule loop_None, rule allI)
  fix n
  have "real n * a * dt \<le> 0" using a dt by (simp add: mult_nonneg_nonpos mult_nonpos_nonneg)
  with v show "snd ((euler_step a dt ^^ n) (s, v)) < 0" by (simp add: steps_closed)
qed




lemma braking_moves_forward:
  fixes v a dt :: real
  assumes v: "v < 0" and a: "0 < a" and dt: "0 < dt"
  shows "travel a dt v (stop_steps a dt v) < 0"
proof -
  define x where "x = - v / (a * dt)"
  define N where "N = real (stop_steps a dt v)"
  note f = braking_facts[OF v a dt, folded x_def, folded N_def]
  have adt2: "0 < a * dt * dt" using a dt by simp
  have "N - 1 < 2 * x" using f(1,3,5) by linarith
  then have "(N - 1) / 2 - x < 0" by simp
  moreover have "0 < N" using f(3) by linarith
  ultimately have "N * ((N - 1) / 2 - x) < 0" by (simp only: mult_less_0_iff) simp
  then have "a * dt * dt * (N * ((N - 1) / 2 - x)) < 0"
    using adt2 by (simp only: mult_less_0_iff) simp
  moreover have "N * v * dt + a * dt * dt * (N * (N - 1) / 2) = a * dt * dt * (N * ((N - 1) / 2 - x))"
    by (subst f(2)) (simp add: algebra_simps)
  ultimately show ?thesis unfolding travel_def N_def by simp
qed

lemma resting_braking:
  assumes v: "v < 0" and al: "0 < alpha"
  shows "restingPosition s v alpha =
     Some (s + travel (alpha * 9.8) 0.001 v (stop_steps (alpha * 9.8) 0.001 v))"
proof -
  have a: "0 < alpha * 9.8" using al by simp
  have dt: "(0::real) < 0.001" by simp
  show ?thesis
    unfolding restingPosition_def Let_def
    by (simp only: loop_braking[OF v a dt] option.map fst_conv)
qed

lemma braking_error:
  fixes v a dt :: real
  assumes v: "v < 0" and a: "0 < a" and dt: "0 < dt"
  shows "\<bar>travel a dt v (stop_steps a dt v) + v * v / (2 * a)\<bar> \<le> dt * \<bar>v\<bar>"
proof -
  define x where "x = - v / (a * dt)"
  define N where "N = real (stop_steps a dt v)"
  define d where "d = N - x"
  define c where "c = a * dt * dt"
  note f = braking_facts[OF v a dt, folded x_def, folded N_def]
  have c: "0 < c" unfolding c_def using a dt by simp
  have d0: "0 \<le> d" and d1: "d \<le> 1" unfolding d_def using f(4,5) by linarith+
  have "d * d \<le> d * 1" by (rule mult_left_mono[OF d1 d0])
  then have q1: "d * d \<le> d" by simp
  have "d * (1 - d) \<le> 1 * (1 - d)" by (rule mult_right_mono) (use d0 d1 in simp_all)
  then have q2: "d - d * d \<le> 1 - d" by (simp add: algebra_simps)
  have q3: "1 - d \<le> x" unfolding d_def using f(3) by linarith
  have bound: "\<bar>d * d - N\<bar> \<le> 2 * x"
  proof -
    have "d * d - N \<le> 2 * x" using q1 f(1) unfolding d_def by linarith
    moreover have "N - d * d = x + (d - d * d)" unfolding d_def by simp
    then have "N - d * d \<le> 2 * x" using q2 q3 by linarith
    ultimately show ?thesis by linarith
  qed
  have a0: "a \<noteq> 0" using a by simp
  have sq: "v * v / (2 * a) = c * (x * x) / 2"
    by (subst (1 2) f(2)) (simp add: c_def a0 field_simps)
  have tr: "travel a dt v (stop_steps a dt v) = c * (N * (N - 1) / 2 - N * x)"
    unfolding travel_def N_def[symmetric]
    by (subst f(2)) (simp add: c_def algebra_simps)
  have E: "travel a dt v (stop_steps a dt v) + v * v / (2 * a) = c / 2 * (d * d - N)"
    unfolding tr sq d_def by (simp add: field_simps)
  have "\<bar>travel a dt v (stop_steps a dt v) + v * v / (2 * a)\<bar> = \<bar>c / 2\<bar> * \<bar>d * d - N\<bar>"
    unfolding E by (rule abs_mult)
  also have "\<dots> = c / 2 * \<bar>d * d - N\<bar>"
    using c by simp
  also have "\<dots> \<le> c / 2 * (2 * x)"
    using bound c by (intro mult_left_mono) simp_all
  also have "\<dots> = dt * (x * (a * dt))" by (simp add: c_def)
  also have "\<dots> = dt * \<bar>v\<bar>"
  proof -
    have "\<bar>v\<bar> = - v" using v by simp
    also have "\<dots> = x * (a * dt)" by (subst f(2)) simp
    finally show ?thesis by simp
  qed
  finally show ?thesis .
qed


section \<open>The two-point estimate on the measurements\<close>

lemma est_values: "est_s = 0.618" "est_v0 = - 0.345" "est_v1 = - 0.335" "est_alpha = 5 / 588"
  by (simp_all add: est_s_def est_v0_def est_v1_def est_alpha_def data_def frame_period_def g_const_def)

lemma est_steps: "stop_steps (5 / 588 * 9.8) 0.001 (- 0.345) = 4140"
  by (simp add: stop_steps_def)

lemma est_rest: "restingPosition est_s est_v0 est_alpha = Some (- 0.0963225)"
proof -
  have "restingPosition 0.618 (- 0.345) (5 / 588) =
     Some (0.618 + travel (5 / 588 * 9.8) 0.001 (- 0.345) (stop_steps (5 / 588 * 9.8) 0.001 (- 0.345)))"
    by (rule resting_braking) simp_all
  also have "\<dots> = Some (- 0.0963225)"
    unfolding est_steps by (simp add: travel_def)
  finally show ?thesis by (simp only: est_values)
qed

section \<open>Vectors, the normal equations and least squares\<close>

lemma dot3_add_right: "dot3 r (add3 u v) = dot3 r u + dot3 r v"
  by (cases r; cases u; cases v) (simp add: algebra_simps)

lemma dot3_add_left: "dot3 (add3 u v) w = dot3 u w + dot3 v w"
  by (cases u; cases v; cases w) (simp add: algebra_simps)

lemma dot3_scale_right: "dot3 r (scale3 k v) = k * dot3 r v"
  by (cases r; cases v) (simp add: algebra_simps)

lemma dot3_commute: "dot3 u v = dot3 v u"
  by (cases u; cases v) (simp add: algebra_simps)

lemma dot3_zero_right: "dot3 w (0, 0, 0) = 0"
  by (cases w) simp

lemma dot3_self_nonneg: "0 \<le> dot3 v v"
  by (cases v) simp

lemma mv3_add: "mv3 G (add3 u v) = add3 (mv3 G u) (mv3 G v)"
  by (cases G) (simp add: dot3_add_right)

lemma mv3_scale: "mv3 G (scale3 k v) = scale3 k (mv3 G v)"
  by (cases G) (simp add: dot3_scale_right)

lemma mv3_zero: "mv3 G (0, 0, 0) = (0, 0, 0)"
  by (cases G rule: prod_cases3; cases "fst G"; cases "fst (snd G)"; cases "snd (snd G)") simp

lemma scale3_scale3: "scale3 k (scale3 l v) = scale3 (k * l) v"
  by (cases v) (simp add: algebra_simps)

lemma scale3_one: "scale3 1 v = v"
  by (cases v) simp

lemma add3_sub3: "add3 B (sub3 B' B) = B'"
  by (cases B; cases B') simp

lemma gram_sym: "\<exists>a b c d e f. gram X = ((a, b, c), (b, d, e), (c, e, f))"
proof (induction X)
  case Nil
  show ?case by simp
next
  case (Cons r X)
  then obtain a b c d e f where "gram X = ((a, b, c), (b, d, e), (c, e, f))" by blast
  then show ?case by (cases r) (simp add: mult.commute)
qed

lemma gram_quad: "dot3 v (mv3 (gram X) v) = (\<Sum>r\<leftarrow>X. (dot3 r v)\<^sup>2)"
proof (induction X)
  case Nil
  show ?case by (cases v) simp
next
  case (Cons r X)
  obtain G1 G2 G3 where G: "gram X = (G1, G2, G3)" by (cases "gram X") auto
  have "dot3 v (mv3 (gram (r # X)) v) = (dot3 r v)\<^sup>2 + dot3 v (mv3 (gram X) v)"
    by (cases v; cases r; cases G1; cases G2; cases G3) (simp add: G power2_eq_square algebra_simps)
  then show ?case by (simp add: Cons)
qed

lemma gram_psd: "0 \<le> dot3 v (mv3 (gram X) v)"
  unfolding gram_quad by (rule sum_list_nonneg) auto

lemma gram_dot:
  "dot3 w (mv3 (gram X) B) = (\<Sum>r\<leftarrow>X. dot3 r w * dot3 r B)"
proof (induction X)
  case Nil
  show ?case by (cases w; cases B) simp
next
  case (Cons r X)
  obtain G1 G2 G3 where G: "gram X = (G1, G2, G3)" by (metis prod_cases3)
  have "dot3 w (mv3 (gram (r # X)) B) = dot3 r w * dot3 r B + dot3 w (mv3 (gram X) B)"
    by (cases w; cases B; cases r; cases G1; cases G2; cases G3) (simp add: G algebra_simps)
  then show ?case by (simp add: Cons)
qed

lemma sum_squares_pos:
  fixes f :: "'a \<Rightarrow> real"
  assumes "r \<in> set X" and "f r \<noteq> 0"
  shows "0 < (\<Sum>r\<leftarrow>X. (f r)\<^sup>2)"
proof -
  have nn: "0 \<le> (\<Sum>r\<leftarrow>X. (f r)\<^sup>2)" by (rule sum_list_nonneg) auto
  have "(\<Sum>r\<leftarrow>X. (f r)\<^sup>2) \<noteq> 0"
  proof
    assume "(\<Sum>r\<leftarrow>X. (f r)\<^sup>2) = 0"
    then have "\<forall>x\<in>set (map (\<lambda>r. (f r)\<^sup>2) X). x = 0"
      by (subst (asm) sum_list_nonneg_eq_0_iff) auto
    with assms(1) have "(f r)\<^sup>2 = 0" by auto
    with assms(2) show False by simp
  qed
  with nn show ?thesis by linarith
qed

lemma gram_null_rows:
  assumes "dot3 w (mv3 (gram X) w) = 0" and "r \<in> set X"
  shows "dot3 r w = 0"
proof (rule ccontr)
  assume "dot3 r w \<noteq> 0"
  with assms(2) have "0 < (\<Sum>r\<leftarrow>X. (dot3 r w)\<^sup>2)" by (rule sum_squares_pos)
  with assms(1) show False by (simp add: gram_quad)
qed

lemma xty_dot:
  "length X = length Y \<Longrightarrow> dot3 w (xty X Y) = (\<Sum>(r, y)\<leftarrow>zip X Y. y * dot3 r w)"
proof (induction X Y rule: list_induct2)
  case Nil
  show ?case by (cases w) simp
next
  case (Cons r X y Y)
  have "dot3 w (xty (r # X) (y # Y)) = y * dot3 r w + dot3 w (xty X Y)"
    by (simp add: dot3_add_right dot3_scale_right dot3_commute)
  then show ?case by (simp add: Cons)
qed

lemma xty_exact: "xty X (map (\<lambda>r. dot3 r B) X) = mv3 (gram X) B"
proof (induction X)
  case Nil
  show ?case by (cases B) simp
next
  case (Cons r X)
  obtain G1 G2 G3 where G: "gram X = (G1, G2, G3)" by (cases "gram X") auto
  show ?case
    using Cons by (cases B; cases r; cases G1; cases G2; cases G3) (simp add: G algebra_simps)
qed

lemma gram_orth:
  assumes len: "length X = length Y" and q: "dot3 w (mv3 (gram X) w) = 0"
  shows "dot3 w (xty X Y) = 0"
proof -
  have "(\<Sum>(r, y)\<leftarrow>zip X Y. y * dot3 r w) = (\<Sum>z\<leftarrow>zip X Y. 0)"
  proof (rule arg_cong[where f = sum_list], rule map_cong[OF refl])
    fix z assume "z \<in> set (zip X Y)"
    then have "(fst z, snd z) \<in> set (zip X Y)" by simp
    then have "fst z \<in> set X" by (rule set_zip_leftD)
    from gram_null_rows[OF q this] show "(case z of (r, y) \<Rightarrow> y * dot3 r w) = 0"
      by (cases z) simp
  qed
  then show ?thesis by (simp add: xty_dot[OF len])
qed

lemma ssr_shift:
  assumes "length X = length Y"
  shows "ssr X Y (add3 B D) =
     ssr X Y B + 2 * (dot3 D (mv3 (gram X) B) - dot3 D (xty X Y)) + dot3 D (mv3 (gram X) D)"
  using assms
proof (induction X Y rule: list_induct2)
  case Nil
  show ?case by (cases D; cases B) simp
next
  case (Cons r X y Y)
  have row: "(dot3 r (add3 B D) - y)\<^sup>2 =
      (dot3 r B - y)\<^sup>2 + 2 * (dot3 r D * dot3 r B - y * dot3 r D) + dot3 r D * dot3 r D"
    by (simp add: dot3_add_right power2_eq_square algebra_simps)
  have x: "dot3 D (xty (r # X) (y # Y)) = y * dot3 r D + dot3 D (xty X Y)"
    by (simp add: dot3_add_right dot3_scale_right dot3_commute)
  have g: "dot3 D (mv3 (gram (r # X)) V) = dot3 r D * dot3 r V + dot3 D (mv3 (gram X) V)" for V
    unfolding gram_dot by simp
  show ?case
    unfolding ssr.simps row x g Cons.IH by (simp add: algebra_simps)
qed

lemma normal_equations_minimise:
  assumes len: "length X = length Y" and ne: "mv3 (gram X) B = xty X Y"
  shows "ssr X Y B \<le> ssr X Y B'"
proof -
  have "ssr X Y B' = ssr X Y (add3 B (sub3 B' B))" by (simp add: add3_sub3)
  also have "\<dots> = ssr X Y B + dot3 (sub3 B' B) (mv3 (gram X) (sub3 B' B))"
    by (simp add: ssr_shift[OF len] ne)
  finally show ?thesis using gram_psd[of "sub3 B' B" X] by simp
qed

section \<open>The pseudo-inverse solves the normal equations\<close>

lemma adj3_right:
  "mv3 G (mv3 (adj3 G) v) = scale3 (det3 G) v"
proof -
  obtain a11 a12 a13 a21 a22 a23 a31 a32 a33
    where G: "G = ((a11, a12, a13), (a21, a22, a23), (a31, a32, a33))"
    by (metis prod_cases3)
  obtain v1 v2 v3 where v: "v = (v1, v2, v3)" by (metis prod_cases3)
  show ?thesis unfolding G v by (simp add: algebra_simps)
qed

lemma cramer:
  assumes "det3 G \<noteq> 0"
  shows "scale3 (1 / det3 G) (mv3 (adj3 G) (mv3 G B)) = B"
proof -
  obtain a11 a12 a13 a21 a22 a23 a31 a32 a33
    where G: "G = ((a11, a12, a13), (a21, a22, a23), (a31, a32, a33))"
    by (metis prod_cases3)
  obtain b1 b2 b3 where B: "B = (b1, b2, b3)" by (metis prod_cases3)
  define D where "D = det3 G"
  have D: "D \<noteq> 0" using assms by (simp add: D_def)
  have "mv3 (adj3 G) (mv3 G B) = (D * b1, D * b2, D * b3)"
    unfolding D_def G B by (simp add: algebra_simps)
  then show ?thesis using D unfolding D_def[symmetric] B by simp
qed

lemma cayley_hamilton3:
  "mv3 G (mv3 G v) =
     add3 (add3 (scale3 (trace3 G) (mv3 G v)) (scale3 (- trace3 (adj3 G)) v)) (mv3 (adj3 G) v)"
proof -
  obtain a11 a12 a13 a21 a22 a23 a31 a32 a33
    where G: "G = ((a11, a12, a13), (a21, a22, a23), (a31, a32, a33))"
    by (metis prod_cases3)
  obtain v1 v2 v3 where v: "v = (v1, v2, v3)" by (metis prod_cases3)
  show ?thesis unfolding G v by (simp add: algebra_simps)
qed

lemma adj3_sym_null:
  fixes a b c d e f :: real
  defines "G \<equiv> ((a, b, c), (b, d, e), (c, e, f))"
  assumes det: "det3 G = 0"
    and orth: "\<And>w. dot3 w (mv3 G w) = 0 \<Longrightarrow> dot3 w cv = 0"
  shows "mv3 (adj3 G) cv = (0, 0, 0)"
proof -
  define w1 where "w1 = (d * f - e * e, c * e - b * f, b * e - c * d)"
  define w2 where "w2 = (c * e - b * f, a * f - c * c, b * c - a * e)"
  define w3 where "w3 = (b * e - c * d, b * c - a * e, a * d - b * b)"
  have adj: "adj3 G = (w1, w2, w3)"
    unfolding G_def w1_def w2_def w3_def by (simp add: algebra_simps)
  have "dot3 w1 (mv3 G w1) = (d * f - e * e) * det3 G"
    unfolding G_def w1_def by (simp add: algebra_simps)
  then have 1: "dot3 w1 cv = 0" using det by (intro orth) simp
  have "dot3 w2 (mv3 G w2) = (a * f - c * c) * det3 G"
    unfolding G_def w2_def by (simp add: algebra_simps)
  then have 2: "dot3 w2 cv = 0" using det by (intro orth) simp
  have "dot3 w3 (mv3 G w3) = (a * d - b * b) * det3 G"
    unfolding G_def w3_def by (simp add: algebra_simps)
  then have 3: "dot3 w3 cv = 0" using det by (intro orth) simp
  show ?thesis unfolding adj by (simp add: 1 2 3)
qed

lemma psd_minor:
  fixes a b d :: real
  assumes psd2: "\<And>x y. 0 \<le> a * x * x + 2 * b * x * y + d * y * y"
  shows "0 \<le> a * d - b * b"
proof -
  have a: "0 \<le> a" using psd2[of 1 0] by simp
  show ?thesis
  proof (cases "a = 0")
    case False
    with a have pos: "0 < a" by simp
    have "0 \<le> a * b * b + 2 * b * b * (- a) + d * (- a) * (- a)" by (rule psd2)
    also have "\<dots> = a * (a * d - b * b)" by (simp add: algebra_simps)
    finally show ?thesis using pos by (simp add: zero_le_mult_iff)
  next
    case True
    have "b = 0"
    proof (rule ccontr)
      assume b: "b \<noteq> 0"
      have "0 \<le> a * (- (d + 1) / (2 * b)) * (- (d + 1) / (2 * b)) + 2 * b * (- (d + 1) / (2 * b)) * 1 + d * 1 * 1"
        by (rule psd2)
      also have "\<dots> = - 1" using b by (simp add: True field_simps)
      finally show False by simp
    qed
    with True show ?thesis by simp
  qed
qed

lemma min_norm_solve_normal:
  fixes a b c d e f :: real
  defines "G \<equiv> ((a, b, c), (b, d, e), (c, e, f))"
  assumes psd: "\<And>v. 0 \<le> dot3 v (mv3 G v)"
    and orth: "\<And>w. dot3 w (mv3 G w) = 0 \<Longrightarrow> dot3 w cv = 0"
  shows "mv3 G (min_norm_solve G cv) = cv"
proof -
  define e1 where "e1 = trace3 G"
  define e2 where "e2 = trace3 (adj3 G)"
  define e3 where "e3 = det3 G"
  define p where "p = mv3 G cv"
  obtain c1 c2 c3 where cv: "cv = (c1, c2, c3)" by (metis prod_cases3)
  obtain p1 p2 p3 where pp: "p = (p1, p2, p3)" by (metis prod_cases3)
  show ?thesis
  proof (cases "e3 = 0")
    case False
    then have "min_norm_solve G cv = scale3 (1 / e3) (mv3 (adj3 G) cv)"
      by (simp add: min_norm_solve_def Let_def e3_def)
    then have "mv3 G (min_norm_solve G cv) = scale3 (1 / e3) (scale3 e3 cv)"
      by (simp add: mv3_scale adj3_right e3_def)
    then show ?thesis using False by (simp add: scale3_scale3 scale3_one)
  next
    case det0: True
    have adj0: "mv3 (adj3 G) cv = (0, 0, 0)"
      unfolding G_def by (rule adj3_sym_null) (use det0 orth in \<open>simp_all add: e3_def G_def\<close>)
    have GG: "mv3 G p = add3 (scale3 e1 p) (scale3 (- e2) cv)"
      unfolding p_def cayley_hamilton3[of G cv] adj0 e1_def e2_def
      by (cases "mv3 G cv"; cases cv) simp
    show ?thesis
    proof (cases "e2 = 0")
      case False
      have "min_norm_solve G cv =
          scale3 (1 / (e2 * e2)) (add3 (scale3 (e1 * e1 - e2) p) (scale3 (- e1) (mv3 G p)))"
        using det0 False by (simp add: min_norm_solve_def Let_def e1_def e2_def e3_def p_def)
      also have "\<dots> = scale3 (1 / e2) (add3 (scale3 e1 cv) (scale3 (- 1) p))"
        using False by (subst GG) (simp add: pp cv field_simps)
      finally have B: "min_norm_solve G cv = scale3 (1 / e2) (add3 (scale3 e1 cv) (scale3 (- 1) p))" .
      have "mv3 G (min_norm_solve G cv) = scale3 (1 / e2) (add3 (scale3 e1 p) (scale3 (- 1) (mv3 G p)))"
        unfolding B by (simp add: mv3_scale mv3_add p_def)
      also have "\<dots> = cv"
        using False by (subst GG) (simp add: pp cv field_simps)
      finally show ?thesis .
    next
      case e20: True
      have m3: "0 \<le> a * d - b * b"
      proof (rule psd_minor)
        fix x y show "0 \<le> a * x * x + 2 * b * x * y + d * y * y"
          using psd[of "(x, y, 0)"] by (simp add: G_def algebra_simps)
      qed
      have m2: "0 \<le> a * f - c * c"
      proof (rule psd_minor)
        fix x y show "0 \<le> a * x * x + 2 * c * x * y + f * y * y"
          using psd[of "(x, 0, y)"] by (simp add: G_def algebra_simps)
      qed
      have m1: "0 \<le> d * f - e * e"
      proof (rule psd_minor)
        fix x y show "0 \<le> d * x * x + 2 * e * x * y + f * y * y"
          using psd[of "(0, x, y)"] by (simp add: G_def algebra_simps)
      qed
      have "(d * f - e * e) + (a * f - c * c) + (a * d - b * b) = 0"
        using e20 by (simp add: e2_def G_def algebra_simps)
      with m1 m2 m3 have z1: "d * f - e * e = 0" and z2: "a * f - c * c = 0" and z3: "a * d - b * b = 0"
        by linarith+
      define Dt where "Dt = a * (d * f - e * e) - b * (b * f - e * c) + c * (b * e - d * c)"
      define m1 where "m1 = d * f - e * e"
      define m2 where "m2 = a * f - c * c"
      define m3 where "m3 = a * d - b * b"
      have dz: "Dt = 0" using det0 by (simp add: e3_def G_def Dt_def)
      have mz: "m1 = 0" "m2 = 0" "m3 = 0" using z1 z2 z3 by (simp_all add: m1_def m2_def m3_def)
      have "(c * e - b * f) * (c * e - b * f) = m1 * m2 - f * Dt"
        by (simp add: m1_def m2_def Dt_def algebra_simps)
      then have o12: "c * e - b * f = 0" by (simp add: mz dz)
      have "(b * e - c * d) * (b * e - c * d) = m1 * m3 - d * Dt"
        by (simp add: m1_def m3_def Dt_def algebra_simps)
      then have o13: "b * e - c * d = 0" by (simp add: mz dz)
      have "(b * c - a * e) * (b * c - a * e) = m2 * m3 - a * Dt"
        by (simp add: m2_def m3_def Dt_def algebra_simps)
      then have o23: "b * c - a * e = 0" by (simp add: mz dz)
      have adjz: "adj3 G = ((0, 0, 0), (0, 0, 0), (0, 0, 0))"
        using z1 z2 z3 o12 o13 o23 by (simp add: G_def algebra_simps)
      have GGv: "mv3 G (mv3 G v) = scale3 e1 (mv3 G v)" for v
        unfolding cayley_hamilton3[of G v] adjz e1_def[symmetric] e2_def[symmetric] e20
        by (cases "mv3 G v"; cases v) simp
      show ?thesis
      proof (cases "e1 = 0")
        case False
        define u1 where "u1 = (a - e1, b, c)"
        define u2 where "u2 = (b, d - e1, e)"
        define u3 where "u3 = (c, e, f - e1)"
        have u1: "u1 = add3 (mv3 G (1, 0, 0)) (scale3 (- e1) (1, 0, 0))"
          and u2: "u2 = add3 (mv3 G (0, 1, 0)) (scale3 (- e1) (0, 1, 0))"
          and u3: "u3 = add3 (mv3 G (0, 0, 1)) (scale3 (- e1) (0, 0, 1))"
          by (simp_all add: u1_def u2_def u3_def G_def)
        have null: "mv3 G (add3 (mv3 G v) (scale3 (- e1) v)) = (0, 0, 0)" for v
          unfolding mv3_add mv3_scale GGv by (cases "mv3 G v") simp
        have "dot3 u1 cv = 0"
        proof (rule orth)
          have "mv3 G u1 = (0, 0, 0)" unfolding u1 by (rule null)
          then show "dot3 u1 (mv3 G u1) = 0" by (simp add: dot3_zero_right)
        qed
        moreover have "dot3 u2 cv = 0"
        proof (rule orth)
          have "mv3 G u2 = (0, 0, 0)" unfolding u2 by (rule null)
          then show "dot3 u2 (mv3 G u2) = 0" by (simp add: dot3_zero_right)
        qed
        moreover have "dot3 u3 cv = 0"
        proof (rule orth)
          have "mv3 G u3 = (0, 0, 0)" unfolding u3 by (rule null)
          then show "dot3 u3 (mv3 G u3) = 0" by (simp add: dot3_zero_right)
        qed
        ultimately have pe: "p = scale3 e1 cv"
          unfolding p_def u1_def u2_def u3_def cv G_def by (simp add: algebra_simps)
        have "min_norm_solve G cv = scale3 (1 / (e1 * e1)) p"
          using det0 e20 False by (simp add: min_norm_solve_def Let_def e1_def e2_def e3_def p_def)
        also have "\<dots> = scale3 (1 / e1) cv"
          unfolding pe using False by (simp add: scale3_scale3)
        finally have "mv3 G (min_norm_solve G cv) = scale3 (1 / e1) p"
          by (simp add: mv3_scale p_def)
        then show ?thesis unfolding pe using False by (simp add: scale3_scale3 scale3_one)
      next
        case e10: True
        have a0: "0 \<le> a" using psd[of "(1, 0, 0)"] by (simp add: G_def)
        have d0: "0 \<le> d" using psd[of "(0, 1, 0)"] by (simp add: G_def)
        have f0: "0 \<le> f" using psd[of "(0, 0, 1)"] by (simp add: G_def)
        have "a + d + f = 0" using e10 by (simp add: e1_def G_def)
        with a0 d0 f0 have z: "a = 0" "d = 0" "f = 0" by linarith+
        have "dot3 (1, 0, 0) cv = 0" by (rule orth) (simp add: G_def z)
        moreover have "dot3 (0, 1, 0) cv = 0" by (rule orth) (simp add: G_def z)
        moreover have "dot3 (0, 0, 1) cv = 0" by (rule orth) (simp add: G_def z)
        ultimately have cz: "cv = (0, 0, 0)" by (simp add: cv)
        have "min_norm_solve G cv = (0, 0, 0)"
          using det0 e20 e10 by (simp add: min_norm_solve_def Let_def e1_def e2_def e3_def)
        then show ?thesis by (simp add: mv3_zero cz)
      qed
    qed
  qed
qed

lemma gram_normal_equations:
  assumes len: "length X = length Y"
  shows "mv3 (gram X) (min_norm_solve (gram X) (xty X Y)) = xty X Y"
proof -
  obtain a b c d e f where G: "gram X = ((a, b, c), (b, d, e), (c, e, f))"
    using gram_sym by blast
  show ?thesis
    unfolding G
  proof (rule min_norm_solve_normal)
    fix v show "0 \<le> dot3 v (mv3 ((a, b, c), (b, d, e), (c, e, f)) v)"
      using gram_psd[of v X] by (simp only: G)
  next
    fix w assume "dot3 w (mv3 ((a, b, c), (b, d, e), (c, e, f)) w) = 0"
    then have "dot3 w (mv3 (gram X) w) = 0" by (simp only: G)
    from gram_orth[OF len this] show "dot3 w (xty X Y) = 0" .
  qed
qed

lemma min_norm_solve_range: "\<exists>z. min_norm_solve G cv = mv3 G z"
proof (cases "det3 G = 0")
  case False
  have "mv3 G (mv3 (adj3 G) (scale3 (1 / det3 G) (min_norm_solve G cv))) = min_norm_solve G cv"
    unfolding adj3_right using False by (simp add: scale3_scale3 scale3_one)
  then show ?thesis by metis
next
  case det0: True
  show ?thesis
  proof (cases "trace3 (adj3 G) = 0")
    case False
    have "min_norm_solve G cv =
        mv3 G (scale3 (1 / (trace3 (adj3 G) * trace3 (adj3 G)))
          (add3 (scale3 (trace3 G * trace3 G - trace3 (adj3 G)) cv) (scale3 (- trace3 G) (mv3 G cv))))"
      using det0 False by (simp add: min_norm_solve_def Let_def mv3_scale mv3_add)
    then show ?thesis by blast
  next
    case e20: True
    show ?thesis
    proof (cases "trace3 G = 0")
      case False
      have "min_norm_solve G cv = mv3 G (scale3 (1 / (trace3 G * trace3 G)) cv)"
        using det0 e20 False by (simp add: min_norm_solve_def Let_def mv3_scale)
      then show ?thesis by blast
    next
      case True
      have "min_norm_solve G cv = mv3 G (0, 0, 0)"
        using det0 e20 True by (simp add: min_norm_solve_def Let_def mv3_zero)
      then show ?thesis by blast
    qed
  qed
qed

lemma lstsq_min_norm_least_squares:
  assumes len: "length X = length Y"
  shows "\<exists>B. lstsq X Y = Inr B
     \<and> mv3 (gram X) B = xty X Y
     \<and> (\<forall>B'. ssr X Y B \<le> ssr X Y B')
     \<and> (\<forall>B'. ssr X Y B' \<le> ssr X Y B \<longrightarrow> dot3 B B \<le> dot3 B' B')"
proof -
  define B where "B = min_norm_solve (gram X) (xty X Y)"
  have res: "lstsq X Y = Inr B" using len by (simp add: lstsq_def B_def)
  have ne: "mv3 (gram X) B = xty X Y" unfolding B_def by (rule gram_normal_equations[OF len])
  have mini: "ssr X Y B \<le> ssr X Y B'" for B'
    by (rule normal_equations_minimise[OF len ne])
  have norm: "dot3 B B \<le> dot3 B' B'" if le: "ssr X Y B' \<le> ssr X Y B" for B'
  proof -
    define D where "D = sub3 B' B"
    have B': "B' = add3 B D" by (simp add: D_def add3_sub3)
    have "ssr X Y B' = ssr X Y B + dot3 D (mv3 (gram X) D)"
      unfolding B' by (simp add: ssr_shift[OF len] ne)
    with le gram_psd[of D X] have q: "dot3 D (mv3 (gram X) D) = 0" by linarith
    obtain z where z: "B = mv3 (gram X) z" unfolding B_def using min_norm_solve_range by blast
    have "dot3 D B = (\<Sum>r\<leftarrow>X. dot3 r D * dot3 r z)" unfolding z by (rule gram_dot)
    also have "\<dots> = (\<Sum>r\<leftarrow>X. 0)"
      by (rule arg_cong[where f = sum_list], rule map_cong[OF refl])
        (simp add: gram_null_rows[OF q])
    finally have orth: "dot3 D B = 0" by simp
    have "dot3 B' B' = dot3 B B + 2 * dot3 D B + dot3 D D"
      unfolding B' by (simp add: dot3_add_left dot3_add_right dot3_commute[of B D])
    with orth dot3_self_nonneg[of D] show ?thesis by simp
  qed
  from res ne mini norm show ?thesis by blast
qed

section \<open>The design matrix of the kinematic model\<close>

lemma fit_t_sample: "fit_t = sample_times (1 / 50) 8"
  by (simp add: fit_t_def sample_times_def upt_rec)

lemma posdef_det:
  fixes a b c d e f :: real
  assumes pd: "\<And>v. v \<noteq> (0, 0, 0) \<Longrightarrow> 0 < dot3 v (mv3 ((a, b, c), (b, d, e), (c, e, f)) v)"
  shows "0 < det3 ((a, b, c), (b, d, e), (c, e, f))"
proof -
  have a: "0 < a" using pd[of "(1, 0, 0)"] by simp
  have "0 < dot3 (b, - a, 0) (mv3 ((a, b, c), (b, d, e), (c, e, f)) (b, - a, 0))"
    using a by (intro pd) simp
  also have "dot3 (b, - a, 0) (mv3 ((a, b, c), (b, d, e), (c, e, f)) (b, - a, 0)) = a * (a * d - b * b)"
    by (simp add: algebra_simps)
  finally have m: "0 < a * d - b * b" using a by (simp add: zero_less_mult_iff)
  define w where "w = (b * e - c * d, c * b - a * e, a * d - b * b)"
  have "0 < dot3 w (mv3 ((a, b, c), (b, d, e), (c, e, f)) w)"
    using m by (intro pd) (simp add: w_def)
  also have "dot3 w (mv3 ((a, b, c), (b, d, e), (c, e, f)) w) =
      (a * d - b * b) * det3 ((a, b, c), (b, d, e), (c, e, f))"
    by (simp add: w_def algebra_simps)
  finally show ?thesis using m by (simp add: zero_less_mult_iff)
qed

lemma design_rows:
  assumes "3 \<le> N"
  shows "(1, 0, 0) \<in> set (design_matrix g (sample_times p N))"
    and "(1, p, 0.5 * g * p * p) \<in> set (design_matrix g (sample_times p N))"
    and "(1, 2 * p, 0.5 * g * (2 * p) * (2 * p)) \<in> set (design_matrix g (sample_times p N))"
proof -
  have m: "(1, real n * p, 0.5 * g * (real n * p) * (real n * p))
      \<in> set (design_matrix g (sample_times p N))" if "n < N" for n
    using that by (auto simp: design_matrix_def sample_times_def image_iff)
  show "(1, 0, 0) \<in> set (design_matrix g (sample_times p N))"
    using m[of 0] assms by simp
  show "(1, p, 0.5 * g * p * p) \<in> set (design_matrix g (sample_times p N))"
    using m[of 1] assms by simp
  show "(1, 2 * p, 0.5 * g * (2 * p) * (2 * p)) \<in> set (design_matrix g (sample_times p N))"
    using m[of 2] assms by simp
qed

lemma design_posdef:
  assumes N: "3 \<le> N" and g: "g \<noteq> 0" and p: "p \<noteq> 0" and v: "v \<noteq> (0, 0, 0)"
  shows "0 < dot3 v (mv3 (gram (design_matrix g (sample_times p N))) v)"
proof -
  obtain v1 v2 v3 where vv: "v = (v1, v2, v3)" by (metis prod_cases3)
  note rows = design_rows[OF N, where g = g and p = p]
  have "\<exists>r \<in> set (design_matrix g (sample_times p N)). dot3 r v \<noteq> 0"
  proof (rule ccontr)
    assume "\<not> ?thesis"
    then have z: "\<And>r. r \<in> set (design_matrix g (sample_times p N)) \<Longrightarrow> dot3 r v = 0" by blast
    have e1: "v1 = 0" using z[OF rows(1)] by (simp add: vv)
    have e2: "p * v2 + 0.5 * g * p * p * v3 = 0" using z[OF rows(2)] by (simp add: vv e1)
    have e3: "2 * p * v2 + 0.5 * g * (2 * p) * (2 * p) * v3 = 0" using z[OF rows(3)] by (simp add: vv e1)
    define A where "A = p * v2"
    define q where "q = g * p * p * v3"
    have "A + q / 2 = 0" using e2 by (simp add: A_def q_def algebra_simps)
    moreover have "2 * A + 2 * q = 0" using e3 by (simp add: A_def q_def algebra_simps)
    ultimately have "q = 0" by linarith
    then have v3: "v3 = 0" using g p by (simp add: q_def)
    then have "p * v2 = 0" using e2 by simp
    then have "v2 = 0" using p by simp
    with e1 v3 v show False by (simp add: vv)
  qed
  then obtain r where "r \<in> set (design_matrix g (sample_times p N))" "dot3 r v \<noteq> 0" by blast
  then show ?thesis unfolding gram_quad by (rule sum_squares_pos)
qed

lemma design_det:
  assumes N: "3 \<le> N" and g: "g \<noteq> 0" and p: "p \<noteq> 0"
  shows "0 < det3 (gram (design_matrix g (sample_times p N)))"
proof -
  obtain a b c d e f where G: "gram (design_matrix g (sample_times p N)) = ((a, b, c), (b, d, e), (c, e, f))"
    using gram_sym by blast
  show ?thesis unfolding G
    by (rule posdef_det) (use design_posdef[OF N g p] in \<open>simp add: G\<close>)
qed

lemma model_as_dot:
  "map (model_position s0 u alpha g) t = map (\<lambda>r. dot3 r (s0, u, alpha)) (design_matrix g t)"
  by (simp add: design_matrix_def model_position_def power2_eq_square algebra_simps)

lemma gram_fit: "gram (design_matrix g_const fit_t) =
   ((8, 14/25, 343/1250), (14/25, 7/125, 2401/78125), (343/1250, 2401/78125, 2806769/156250000))"
  by (simp add: design_matrix_def fit_t_def g_const_def)

lemma xty_fit: "xty (design_matrix g_const fit_t) data = (47521/10000, 8173/25000, 4971099/31250000)"
  by (simp add: design_matrix_def fit_t_def g_const_def data_def)

lemma fit_value: "kinematic_fit g_const fit_t data = Inr (5933/9600, - 11699/33600, 25/2352)"
  unfolding kinematic_fit_def lstsq_def gram_fit xty_fit
  by (simp add: min_norm_solve_def design_matrix_def fit_t_def data_def)

text \<open>
  In exact arithmetic, with \<open>g \<noteq> 0\<close> and a sampling period other than \<open>0\<close>, three or more
  observations generated from the equation of motion determine its parameters.
\<close>

lemma exact_fit_recovers_parameters:
  assumes "3 \<le> N" and "g \<noteq> 0" and "period \<noteq> 0"
  shows "kinematic_fit g (sample_times period N)
           (map (model_position s0 u alpha g) (sample_times period N)) = Inr (s0, u, alpha)"
proof -
  let ?X = "design_matrix g (sample_times period N)"
  have det: "det3 (gram ?X) \<noteq> 0" using design_det[OF assms] by simp
  have len: "length ?X = length (map (model_position s0 u alpha g) (sample_times period N))"
    by (simp add: design_matrix_def)
  have "min_norm_solve (gram ?X) (mv3 (gram ?X) (s0, u, alpha)) = (s0, u, alpha)"
    unfolding min_norm_solve_def Let_def using det cramer[OF det] by simp
  then show ?thesis
    unfolding kinematic_fit_def lstsq_def model_as_dot xty_exact
    by (simp add: design_matrix_def)
qed

section \<open>The loop in exact arithmetic\<close>

text \<open>
  Without rounding, a run with \<open>v < 0\<close> ends exactly when \<open>alpha > 0\<close>, after
  \<open>\<lceil>- v / (alpha * g * dt)\<rceil>\<close> passes, and then returns a position below the initial one,
  within \<open>0.001 * \<bar>v\<bar>\<close> of the closed form.
\<close>

lemma exact_loop_ends_iff_friction_positive:
  "(v < 0 \<and> 0 < alpha \<longrightarrow>
      (\<exists>r. restingPosition s v alpha = Some r)
      \<and> restingIterations s v alpha = Some (nat \<lceil>- v / (alpha * 9.8 * 0.001)\<rceil>))
   \<and> (v < 0 \<and> alpha \<le> 0 \<longrightarrow>
      restingPosition s v alpha = None \<and> restingIterations s v alpha = None)"
proof (intro conjI impI)
  assume h: "v < 0 \<and> 0 < alpha"
  then have a: "0 < alpha * 9.8" by simp
  show "\<exists>r. restingPosition s v alpha = Some r"
    using h a by (simp add: restingPosition_def loop_braking)
  show "restingIterations s v alpha = Some (nat \<lceil>- v / (alpha * 9.8 * 0.001)\<rceil>)"
    using h a by (simp add: restingIterations_def loop_braking stop_steps_def)
next
  assume h: "v < 0 \<and> alpha \<le> 0"
  then have a: "alpha * 9.8 \<le> 0" by (simp add: mult_nonpos_nonneg)
  show "restingPosition s v alpha = None"
    using h a by (simp add: restingPosition_def loop_runaway)
  show "restingIterations s v alpha = None"
    using h a by (simp add: restingIterations_def loop_runaway)
qed

lemma exact_resting_position_below_start:
  "v < 0 \<Longrightarrow> 0 < alpha \<Longrightarrow> \<exists>r. restingPosition s v alpha = Some r \<and> r < s"
proof -
  assume v: "v < 0" and al: "0 < alpha"
  have a: "0 < alpha * 9.8" using al by simp
  have dt: "(0::real) < 0.001" by simp
  from braking_moves_forward[OF v a dt] resting_braking[OF v al, of s]
  show ?thesis by simp
qed

lemma exact_simulator_matches_closed_form:
  "u < 0 \<Longrightarrow> 0 < alpha \<Longrightarrow>
     \<exists>r. restingPosition s0 u alpha = Some r \<and> \<bar>r - sr s0 u alpha 9.8\<bar> \<le> 0.001 * \<bar>u\<bar>"
proof -
  assume u: "u < 0" and al: "0 < alpha"
  have a: "0 < alpha * 9.8" using al by simp
  have dt: "(0::real) < 0.001" by simp
  define r where "r = s0 + travel (alpha * 9.8) 0.001 u (stop_steps (alpha * 9.8) 0.001 u)"
  have res: "restingPosition s0 u alpha = Some r"
    unfolding r_def by (rule resting_braking[OF u al])
  have "r - sr s0 u alpha 9.8 =
      travel (alpha * 9.8) 0.001 u (stop_steps (alpha * 9.8) 0.001 u) + u * u / (2 * (alpha * 9.8))"
    unfolding r_def sr_def by (simp add: mult.assoc)
  with braking_error[OF u a dt] have "\<bar>r - sr s0 u alpha 9.8\<bar> \<le> 0.001 * \<bar>u\<bar>" by simp
  with res show ?thesis by blast
qed

section \<open>Binary logarithm and the spacing of doubles\<close>

lemma powi_nat: "(2::real) powi int n = 2 ^ n"
  by simp

lemma powi2_less_iff: "(2::real) powi a < 2 powi b \<longleftrightarrow> a < b"
proof
  assume "(2::real) powi a < 2 powi b"
  show "a < b"
  proof (rule ccontr)
    assume "\<not> a < b"
    then have "b \<le> a" by simp
    then have "(2::real) powi b \<le> 2 powi a" by (intro power_int_increasing) simp_all
    with \<open>(2::real) powi a < 2 powi b\<close> show False by simp
  qed
next
  assume "a < b"
  then show "(2::real) powi a < 2 powi b" by (intro power_int_strict_increasing) simp_all
qed

lemma powi2_le_iff: "(2::real) powi a \<le> 2 powi b \<longleftrightarrow> a \<le> b"
  using powi2_less_iff[of b a] by (simp add: not_less[symmetric])

lemma ilog2_bounds:
  assumes "0 < x"
  shows "2 powi ilog2 x \<le> x" and "x < 2 powi (ilog2 x + 1)"
proof -
  show "2 powi ilog2 x \<le> x"
  proof (cases "1 \<le> x")
    case True
    then have n: "0 < \<lfloor>x\<rfloor>" by simp
    from bitlen_bounds[OF n] have "2 ^ nat (bitlen \<lfloor>x\<rfloor> - 1) \<le> \<lfloor>x\<rfloor>" by simp
    then have "(2::real) ^ nat (bitlen \<lfloor>x\<rfloor> - 1) \<le> of_int \<lfloor>x\<rfloor>"
      by (metis of_int_le_iff of_int_numeral of_int_power)
    also have "\<dots> \<le> x" by simp
    finally have "(2::real) ^ nat (bitlen \<lfloor>x\<rfloor> - 1) \<le> x" .
    moreover have "0 \<le> bitlen \<lfloor>x\<rfloor> - 1"
      using n bitlen_bounds[OF n] by (smt (verit) bitlen_nonneg bitlen_eq_zero_iff)
    ultimately show ?thesis using True by (simp add: ilog2_def power_int_nonneg_exp)
  next
    case False
    then have x1: "x < 1" by simp
    define y where "y = 1 / x"
    have y: "1 < y" unfolding y_def using assms x1 by simp
    define m where "m = \<lceil>y\<rceil> - 1"
    have m: "0 < m" unfolding m_def using y by linarith
    define b where "b = bitlen m"
    from bitlen_bounds[OF m] have "m < 2 ^ nat b" by (simp add: b_def)
    then have "\<lceil>y\<rceil> \<le> 2 ^ nat b" by (simp add: m_def)
    then have "y \<le> of_int (2 ^ nat b)" by (simp add: ceiling_le_iff)
    then have yb: "y \<le> 2 ^ nat b" by simp
    have b0: "0 \<le> b" unfolding b_def by (rule bitlen_nonneg)
    have "2 powi (- b) = 1 / (2::real) ^ nat b"
      using b0 by (simp add: power_int_minus_divide power_int_nonneg_exp)
    also have "\<dots> \<le> 1 / y"
      using yb y by (intro divide_left_mono) simp_all
    also have "\<dots> = x" by (simp add: y_def)
    finally show ?thesis using False by (simp add: ilog2_def b_def m_def y_def)
  qed
  show "x < 2 powi (ilog2 x + 1)"
  proof (cases "1 \<le> x")
    case True
    then have n: "0 < \<lfloor>x\<rfloor>" by simp
    from bitlen_bounds[OF n] have "\<lfloor>x\<rfloor> < 2 ^ nat (bitlen \<lfloor>x\<rfloor>)" by simp
    then have "\<lfloor>x\<rfloor> + 1 \<le> 2 ^ nat (bitlen \<lfloor>x\<rfloor>)" by simp
    then have "of_int (\<lfloor>x\<rfloor> + 1) \<le> (of_int (2 ^ nat (bitlen \<lfloor>x\<rfloor>)) :: real)"
      by (simp only: of_int_le_iff)
    then have "of_int \<lfloor>x\<rfloor> + 1 \<le> (2::real) ^ nat (bitlen \<lfloor>x\<rfloor>)" by simp
    moreover have "x < of_int \<lfloor>x\<rfloor> + 1" by linarith
    ultimately have "x < (2::real) ^ nat (bitlen \<lfloor>x\<rfloor>)" by linarith
    moreover have "0 \<le> bitlen \<lfloor>x\<rfloor>" by (rule bitlen_nonneg)
    ultimately show ?thesis using True by (simp add: ilog2_def power_int_nonneg_exp)
  next
    case False
    then have x1: "x < 1" by simp
    define y where "y = 1 / x"
    have y: "1 < y" unfolding y_def using assms x1 by simp
    define m where "m = \<lceil>y\<rceil> - 1"
    have m: "0 < m" unfolding m_def using y by linarith
    define b where "b = bitlen m"
    have b1: "1 \<le> b" unfolding b_def using m bitlen_eq_zero_iff[of m] bitlen_nonneg[of m] by linarith
    from bitlen_bounds[OF m] have "2 ^ nat (b - 1) \<le> m" by (simp add: b_def)
    then have "2 ^ nat (b - 1) < \<lceil>y\<rceil>" by (simp add: m_def)
    then have "of_int (2 ^ nat (b - 1)) < y" by (simp only: less_ceiling_iff)
    then have yb: "2 ^ nat (b - 1) < y" by simp
    have "x = 1 / y" by (simp add: y_def)
    also have "\<dots> < 1 / (2::real) ^ nat (b - 1)"
      using yb y by (intro divide_strict_left_mono mult_pos_pos) simp_all
    also have "\<dots> = 2 powi (- (b - 1))"
    proof -
      have "(2::real) powi (b - 1) = 2 ^ nat (b - 1)" using b1 by (intro power_int_nonneg_exp) simp
      then show ?thesis by (simp only: power_int_minus_divide)
    qed
    finally show ?thesis using False by (simp add: ilog2_def b_def m_def y_def)
  qed
qed

lemma ilog2_unique:
  assumes "0 < x" and "2 powi e \<le> x" and "x < 2 powi (e + 1)"
  shows "ilog2 x = e"
proof -
  note b = ilog2_bounds[OF assms(1)]
  have "(2::real) powi e < 2 powi (ilog2 x + 1)" using assms(2) b(2) by linarith
  then have 1: "e < ilog2 x + 1" by (simp only: powi2_less_iff)
  have "(2::real) powi ilog2 x < 2 powi (e + 1)" using assms(3) b(1) by linarith
  then have 2: "ilog2 x < e + 1" by (simp only: powi2_less_iff)
  from 1 2 show ?thesis by linarith
qed

lemma powi2_split: "q \<le> e \<Longrightarrow> (2::real) powi e = of_int (2 ^ nat (e - q)) * 2 powi q"
proof -
  assume "q \<le> e"
  have "(2::real) powi e = 2 powi ((e - q) + q)" by simp
  also have "\<dots> = 2 powi (e - q) * 2 powi q" by (rule power_int_add) simp
  also have "(2::real) powi (e - q) = 2 ^ nat (e - q)"
    using \<open>q \<le> e\<close> by (intro power_int_nonneg_exp) simp
  finally show ?thesis by simp
qed

lemma qexp_normal: "\<not> \<bar>x\<bar> < 2 powi (- 1022) \<Longrightarrow> qexp x = ilog2 \<bar>x\<bar> - 52"
  by (simp only: qexp_def if_False)

lemma qexp_subnormal: "\<bar>x\<bar> < 2 powi (- 1022) \<Longrightarrow> qexp x = - 1074"
  by (simp only: qexp_def if_True)

lemma pos_of_normal: "2 powi (- 1022) \<le> (x::real) \<Longrightarrow> 0 < x"
proof -
  assume a: "2 powi (- 1022) \<le> x"
  have "(0::real) < 2 powi (- 1022)" by (rule zero_less_power_int) simp
  with a show "0 < x" by linarith
qed

lemma quantum_pos: "0 < quantum x"
  by (simp add: quantum_def)

lemma qexp_minus: "qexp (- x) = qexp x"
  unfolding qexp_def by (simp only: abs_minus_cancel)

lemma quantum_minus: "quantum (- x) = quantum x"
  by (simp add: quantum_def qexp_minus)

lemma ilog2_mono:
  assumes "0 < x" and "x \<le> y"
  shows "ilog2 x \<le> ilog2 y"
proof -
  have y: "0 < y" using assms by linarith
  have "(2::real) powi ilog2 x \<le> x" by (rule ilog2_bounds[OF assms(1)])
  also have "x \<le> y" by fact
  also have "y < 2 powi (ilog2 y + 1)" by (rule ilog2_bounds[OF y])
  finally have "ilog2 x < ilog2 y + 1" by (simp only: powi2_less_iff)
  then show ?thesis by simp
qed

lemma ilog2_normal:
  assumes "2 powi (- 1022) \<le> x"
  shows "- 1022 \<le> ilog2 x"
proof -
  have x: "0 < x" using assms by (rule pos_of_normal)
  have "(2::real) powi (- 1022) \<le> x" by fact
  also have "x < 2 powi (ilog2 x + 1)" by (rule ilog2_bounds[OF x])
  finally have "- 1022 < ilog2 x + 1" by (simp only: powi2_less_iff)
  then show ?thesis by simp
qed

lemma qexp_mono:
  assumes "\<bar>x\<bar> \<le> \<bar>y\<bar>"
  shows "qexp x \<le> qexp y"
proof (cases "\<bar>y\<bar> < 2 powi (- 1022)")
  case True
  with assms have "\<bar>x\<bar> < 2 powi (- 1022)" by linarith
  with True show ?thesis by (simp only: qexp_subnormal)
next
  case ny: False
  then have "2 powi (- 1022) \<le> \<bar>y\<bar>" by linarith
  then have ly: "- 1022 \<le> ilog2 \<bar>y\<bar>" by (rule ilog2_normal)
  show ?thesis
  proof (cases "\<bar>x\<bar> < 2 powi (- 1022)")
    case True
    show ?thesis unfolding qexp_subnormal[OF True] qexp_normal[OF ny] using ly by linarith
  next
    case False
    then have "2 powi (- 1022) \<le> \<bar>x\<bar>" by linarith
    then have "0 < \<bar>x\<bar>" by (rule pos_of_normal)
    from ilog2_mono[OF this assms] show ?thesis
      unfolding qexp_normal[OF False] qexp_normal[OF ny] by linarith
  qed
qed

lemma qexp_lower: "- 1074 \<le> qexp x"
proof (cases "\<bar>x\<bar> < 2 powi (- 1022)")
  case True
  then show ?thesis by (simp only: qexp_subnormal)
next
  case False
  then have "2 powi (- 1022) \<le> \<bar>x\<bar>" by linarith
  then have "- 1022 \<le> ilog2 \<bar>x\<bar>" by (rule ilog2_normal)
  then show ?thesis unfolding qexp_normal[OF False] by linarith
qed

lemma binade_upper: "\<bar>x\<bar> < 2 powi (qexp x + 53)"
proof (cases "\<bar>x\<bar> < 2 powi (- 1022)")
  case True
  have "(2::real) powi (- 1022) < 2 powi (- 1074 + 53)" by (simp only: powi2_less_iff)
  with True show ?thesis unfolding qexp_subnormal[OF True] by linarith
next
  case False
  then have "2 powi (- 1022) \<le> \<bar>x\<bar>" by linarith
  then have "0 < \<bar>x\<bar>" by (rule pos_of_normal)
  from ilog2_bounds(2)[OF this] have "\<bar>x\<bar> < 2 powi (ilog2 \<bar>x\<bar> + 1)" .
  moreover have "ilog2 \<bar>x\<bar> - 52 + 53 = ilog2 \<bar>x\<bar> + 1" by simp
  ultimately show ?thesis unfolding qexp_normal[OF False] by (simp only:)
qed

lemma binade_lower:
  assumes "2 powi (- 1022) \<le> \<bar>x\<bar>"
  shows "2 powi (qexp x + 52) \<le> \<bar>x\<bar>"
proof -
  have n: "\<not> \<bar>x\<bar> < 2 powi (- 1022)" using assms by linarith
  have "0 < \<bar>x\<bar>" using assms by (rule pos_of_normal)
  from ilog2_bounds(1)[OF this] have "2 powi ilog2 \<bar>x\<bar> \<le> \<bar>x\<bar>" .
  moreover have "ilog2 \<bar>x\<bar> - 52 + 52 = ilog2 \<bar>x\<bar>" by simp
  ultimately show ?thesis unfolding qexp_normal[OF n] by (simp only:)
qed

lemma qexp_eq:
  assumes "2 powi e \<le> \<bar>x\<bar>" and "\<bar>x\<bar> < 2 powi (e + 1)" and "- 1022 \<le> e"
  shows "qexp x = e - 52"
proof -
  have "(2::real) powi (- 1022) \<le> 2 powi e" using assms(3) by (simp only: powi2_le_iff)
  with assms(1) have le: "2 powi (- 1022) \<le> \<bar>x\<bar>" by linarith
  then have n: "\<not> \<bar>x\<bar> < 2 powi (- 1022)" by linarith
  have "0 < \<bar>x\<bar>" using le by (rule pos_of_normal)
  from ilog2_unique[OF this assms(1,2)] show ?thesis unfolding qexp_normal[OF n] by simp
qed

lemma qexp_le_of_less:
  assumes "\<bar>y\<bar> < 2 powi (e + 53)" and "- 1074 \<le> e"
  shows "qexp y \<le> e"
proof (cases "\<bar>y\<bar> < 2 powi (- 1022)")
  case True
  then show ?thesis using assms(2) by (simp only: qexp_subnormal)
next
  case False
  then have "2 powi (- 1022) \<le> \<bar>y\<bar>" by linarith
  then have "2 powi (qexp y + 52) \<le> \<bar>y\<bar>" by (rule binade_lower)
  with assms(1) have "(2::real) powi (qexp y + 52) < 2 powi (e + 53)" by linarith
  then have "qexp y + 52 < e + 53" by (simp only: powi2_less_iff)
  then show ?thesis by simp
qed

lemma quantum_mono: "\<bar>x\<bar> \<le> \<bar>y\<bar> \<Longrightarrow> quantum x \<le> quantum y"
  unfolding quantum_def by (simp only: powi2_le_iff qexp_mono)

lemma quantum_least: "2 powi (- 1074) \<le> quantum x"
  unfolding quantum_def by (simp only: powi2_le_iff qexp_lower)

section \<open>Rounding to the nearest integer, ties to even\<close>

lemma round_even_le:
  assumes "q \<le> of_int k"
  shows "round_even q \<le> k"
proof -
  have f: "\<lfloor>q\<rfloor> \<le> k" using assms by linarith
  show ?thesis
  proof (cases "q = of_int \<lfloor>q\<rfloor>")
    case True
    then have "q - of_int \<lfloor>q\<rfloor> = 0" by simp
    then have "round_even q = \<lfloor>q\<rfloor>" by (simp add: round_even_def Let_def)
    with f show ?thesis by simp
  next
    case False
    then have "of_int \<lfloor>q\<rfloor> < q" by (smt (verit) of_int_floor_le)
    with assms have "of_int \<lfloor>q\<rfloor> < (of_int k :: real)" by linarith
    then have "\<lfloor>q\<rfloor> < k" by simp
    moreover have "round_even q \<le> \<lfloor>q\<rfloor> + 1" by (simp add: round_even_def Let_def)
    ultimately show ?thesis by linarith
  qed
qed

lemma round_even_ge:
  assumes "of_int k \<le> q"
  shows "k \<le> round_even q"
proof -
  have "k \<le> \<lfloor>q\<rfloor>" using assms by (simp add: le_floor_iff)
  moreover have "\<lfloor>q\<rfloor> \<le> round_even q" by (simp add: round_even_def Let_def)
  ultimately show ?thesis by linarith
qed

lemma round_even_of_int: "round_even (of_int k) = k"
  using round_even_le[of "of_int k" k] round_even_ge[of k "of_int k"] by simp

lemma round_even_near:
  assumes "\<bar>q - of_int k\<bar> < 1 / 2"
  shows "round_even q = k"
proof (cases "of_int k \<le> q")
  case True
  then have f: "\<lfloor>q\<rfloor> = k" using assms by linarith
  have "q - of_int k < 1 / 2" using assms True by linarith
  then show ?thesis by (simp add: round_even_def Let_def f)
next
  case False
  then have lt: "q < of_int k" by simp
  have f: "\<lfloor>q\<rfloor> = k - 1" using assms lt by linarith
  have "1 / 2 < q - (of_int k - 1)" using assms lt by linarith
  then show ?thesis by (simp add: round_even_def Let_def f)
qed

lemma round_even_minus: "round_even (- q) = - round_even q"
proof (cases "q = of_int \<lfloor>q\<rfloor>")
  case True
  then obtain k where "q = of_int k" ..
  then show ?thesis using round_even_of_int[of k] round_even_of_int[of "- k"] by simp
next
  case False
  define f where "f = \<lfloor>q\<rfloor>"
  define r where "r = q - of_int f"
  have r0: "0 < r" "r < 1" unfolding r_def f_def using False by linarith+
  have fm: "\<lfloor>- q\<rfloor> = - f - 1" using r0 unfolding r_def f_def by linarith
  have rm: "- q - of_int (- f - 1) = 1 - r" by (simp add: r_def)
  have pos: "round_even q =
      (if r < 1 / 2 then f else if 1 / 2 < r then f + 1 else if even f then f else f + 1)"
    by (simp add: round_even_def Let_def r_def f_def)
  have neg: "round_even (- q) =
      (if 1 - r < 1 / 2 then - f - 1 else if 1 / 2 < 1 - r then - f - 1 + 1
       else if even (- f - 1) then - f - 1 else - f - 1 + 1)"
    unfolding round_even_def Let_def fm rm ..
  consider "r < 1 / 2" | "1 / 2 < r" | "r = 1 / 2" by linarith
  then show ?thesis
  proof cases
    case 1
    then show ?thesis unfolding pos neg by simp
  next
    case 2
    then show ?thesis unfolding pos neg by simp
  next
    case 3
    then show ?thesis unfolding pos neg by simp
  qed
qed

section \<open>Rounding to the nearest double\<close>

lemma rtg_minus: "round_to_grid (- x) = - round_to_grid x"
  by (simp add: round_to_grid_def quantum_minus round_even_minus)

lemma multiple_of_quantum:
  assumes "qexp x \<le> e"
  shows "of_int k * 2 powi e = of_int (k * 2 ^ nat (e - qexp x)) * quantum x"
  unfolding quantum_def by (subst powi2_split[OF assms]) simp

lemma rtg_le_multiple:
  assumes "x \<le> of_int k * 2 powi e" and "qexp x \<le> e"
  shows "round_to_grid x \<le> of_int k * 2 powi e"
proof -
  define K where "K = k * 2 ^ nat (e - qexp x)"
  have m: "of_int k * 2 powi e = of_int K * quantum x"
    unfolding K_def by (rule multiple_of_quantum[OF assms(2)])
  have "x / quantum x \<le> of_int K"
    using assms(1) quantum_pos[of x] unfolding m by (simp add: field_simps)
  then have "round_even (x / quantum x) \<le> K" by (rule round_even_le)
  then have "(of_int (round_even (x / quantum x)) :: real) \<le> of_int K" by simp
  then have "of_int (round_even (x / quantum x)) * quantum x \<le> of_int K * quantum x"
    using quantum_pos[of x] by (intro mult_right_mono) simp_all
  then show ?thesis unfolding m round_to_grid_def .
qed

lemma rtg_ge_multiple:
  assumes "of_int k * 2 powi e \<le> x" and "qexp x \<le> e"
  shows "of_int k * 2 powi e \<le> round_to_grid x"
proof -
  have "- x \<le> of_int (- k) * 2 powi e" using assms(1) by simp
  moreover have "qexp (- x) \<le> e" using assms(2) by (simp add: qexp_minus)
  ultimately have "round_to_grid (- x) \<le> of_int (- k) * 2 powi e" by (rule rtg_le_multiple)
  then show ?thesis by (simp add: rtg_minus)
qed

lemma rtg_exact:
  assumes "x = of_int k * 2 powi e" and "qexp x \<le> e"
  shows "round_to_grid x = x"
proof -
  have "round_to_grid x \<le> of_int k * 2 powi e"
    by (rule rtg_le_multiple[OF _ assms(2)]) (simp add: assms(1))
  moreover have "of_int k * 2 powi e \<le> round_to_grid x"
    by (rule rtg_ge_multiple[OF _ assms(2)]) (simp add: assms(1))
  ultimately show ?thesis using assms(1) by linarith
qed

lemma rtg_absorb:
  assumes "\<bar>x - of_int k * quantum x\<bar> < quantum x / 2"
  shows "round_to_grid x = of_int k * quantum x"
proof -
  have "x / quantum x - of_int k = (x - of_int k * quantum x) / quantum x"
    using quantum_pos[of x] by (simp add: field_simps)
  then have "\<bar>x / quantum x - of_int k\<bar> = \<bar>x - of_int k * quantum x\<bar> / quantum x"
    using quantum_pos[of x] by (simp add: abs_divide)
  also have "\<dots> < 1 / 2"
    using assms quantum_pos[of x] by (simp add: field_simps)
  finally have "round_even (x / quantum x) = k" by (rule round_even_near)
  then show ?thesis by (simp add: round_to_grid_def)
qed

lemma rnd_Fin: "\<bar>round_to_grid x\<bar> < 2 powi 1024 \<Longrightarrow> rnd x = Fin (round_to_grid x)"
  unfolding rnd_def Let_def by (simp only: not_le[symmetric] if_False)

lemma is_doubleI:
  assumes "x = of_int k * 2 powi e" and "qexp x \<le> e" and "\<bar>x\<bar> < 2 powi 1024"
  shows "is_double x"
proof -
  have r: "round_to_grid x = x" by (rule rtg_exact[OF assms(1,2)])
  show ?thesis unfolding is_double_def using rnd_Fin[of x] assms(3) by (simp only: r)
qed

lemma is_doubleD:
  assumes "is_double x"
  shows "round_to_grid x = x" and "\<bar>x\<bar> < 2 powi 1024"
    and "x = of_int (round_even (x / quantum x)) * 2 powi qexp x"
proof -
  have eq: "(if 2 powi 1024 \<le> \<bar>round_to_grid x\<bar> then (if 0 < x then PInf else MInf)
      else Fin (round_to_grid x)) = Fin x"
    using assms unfolding is_double_def rnd_def Let_def .
  then have n: "\<not> 2 powi 1024 \<le> \<bar>round_to_grid x\<bar>" by (auto split: if_splits)
  with eq show r: "round_to_grid x = x" by (simp only: if_False dbl.inject)
  from n r show "\<bar>x\<bar> < 2 powi 1024" by (simp only: not_le)
  from r show "x = of_int (round_even (x / quantum x)) * 2 powi qexp x"
    unfolding round_to_grid_def quantum_def by simp
qed

lemma is_double_0: "is_double 0"
  by (rule is_doubleI[of 0 0 "qexp 0"]) simp_all

lemma is_double_minus: "is_double x \<Longrightarrow> is_double (- x)"
proof -
  assume d: "is_double x"
  have "- x = of_int (- round_even (x / quantum x)) * 2 powi qexp (- x)"
    using is_doubleD(3)[OF d] by (simp add: qexp_minus)
  then show ?thesis
    by (rule is_doubleI) (use is_doubleD(2)[OF d] in simp_all)
qed

lemma bracket_upper:
  assumes g: "is_double g" and le: "x \<le> g"
  shows "round_to_grid x \<le> g"
proof -
  define kg where "kg = round_even (g / quantum g)"
  have gk: "g = of_int kg * 2 powi qexp g" unfolding kg_def by (rule is_doubleD(3)[OF g])
  consider "0 \<le> x" | "x < 0" "0 \<le> g" | "x < 0" "g < 0" by linarith
  then show ?thesis
  proof cases
    case 1
    then have "\<bar>x\<bar> \<le> \<bar>g\<bar>" using le by simp
    then have "qexp x \<le> qexp g" by (rule qexp_mono)
    from rtg_le_multiple[OF _ this, of kg] le gk show ?thesis by simp
  next
    case 2
    have "round_to_grid x \<le> of_int 0 * 2 powi qexp x"
      by (rule rtg_le_multiple) (use 2 in simp_all)
    then show ?thesis using 2 by simp
  next
    case 3
    then have "\<bar>g\<bar> \<le> \<bar>x\<bar>" using le by simp
    then have q: "qexp g \<le> qexp x" by (rule qexp_mono)
    show ?thesis
    proof (cases "qexp g = qexp x")
      case True
      from rtg_le_multiple[of x kg "qexp g"] le gk True show ?thesis by simp
    next
      case False
      with q have lt: "qexp g + 1 \<le> qexp x" by simp
      have "\<not> \<bar>x\<bar> < 2 powi (- 1022)"
      proof
        assume "\<bar>x\<bar> < 2 powi (- 1022)"
        then have "qexp x = - 1074" by (rule qexp_subnormal)
        with lt qexp_lower[of g] show False by linarith
      qed
      then have "2 powi (- 1022) \<le> \<bar>x\<bar>" by linarith
      then have "2 powi (qexp x + 52) \<le> \<bar>x\<bar>" by (rule binade_lower)
      then have "x \<le> of_int (- 1) * 2 powi (qexp x + 52)" using 3 by simp
      then have "round_to_grid x \<le> of_int (- 1) * 2 powi (qexp x + 52)"
        by (rule rtg_le_multiple) simp
      moreover have "\<bar>g\<bar> < 2 powi (qexp g + 53)" by (rule binade_upper)
      moreover have "(2::real) powi (qexp g + 53) \<le> 2 powi (qexp x + 52)"
        using lt by (simp only: powi2_le_iff; simp)
      ultimately show ?thesis using 3 by simp
    qed
  qed
qed

lemma bracket_lower:
  assumes g: "is_double g" and le: "g \<le> x"
  shows "g \<le> round_to_grid x"
proof -
  have "round_to_grid (- x) \<le> - g"
    by (rule bracket_upper[OF is_double_minus[OF g]]) (use le in simp)
  then show ?thesis by (simp add: rtg_minus)
qed

lemma rtg_bound: "\<bar>round_to_grid x\<bar> \<le> 2 powi (qexp x + 53)"
proof -
  have u: "\<bar>x\<bar> < 2 powi (qexp x + 53)" by (rule binade_upper)
  have "round_to_grid x \<le> of_int 1 * 2 powi (qexp x + 53)"
    by (rule rtg_le_multiple) (use u in simp_all)
  moreover have "of_int (- 1) * 2 powi (qexp x + 53) \<le> round_to_grid x"
    by (rule rtg_ge_multiple) (use u in simp_all)
  ultimately show ?thesis by simp
qed

lemma rtg_is_double:
  assumes "\<bar>round_to_grid x\<bar> < 2 powi 1024"
  shows "is_double (round_to_grid x)"
proof -
  define y where "y = round_to_grid x"
  define K where "K = round_even (x / quantum x)"
  have yK: "y = of_int K * 2 powi qexp x"
    by (simp add: y_def K_def round_to_grid_def quantum_def)
  have b: "\<bar>y\<bar> \<le> 2 powi (qexp x + 53)" unfolding y_def by (rule rtg_bound)
  show ?thesis unfolding y_def[symmetric]
  proof (cases "\<bar>y\<bar> = 2 powi (qexp x + 53)")
    case False
    with b have "\<bar>y\<bar> < 2 powi (qexp x + 53)" by simp
    then have "qexp y \<le> qexp x" by (rule qexp_le_of_less) (rule qexp_lower)
    with yK show "is_double y" by (rule is_doubleI) (use assms in \<open>simp add: y_def\<close>)
  next
    case True
    have "(2::real) powi (qexp x + 53) \<le> \<bar>y\<bar>" using True by simp
    moreover have "\<bar>y\<bar> < 2 powi (qexp x + 53 + 1)"
      unfolding True by (simp only: powi2_less_iff; simp)
    moreover have "- 1022 \<le> qexp x + 53" using qexp_lower[of x] by linarith
    ultimately have qy: "qexp y = qexp x + 53 - 52" by (rule qexp_eq)
    have "(2::real) powi (qexp x + 53) = of_int (2 ^ nat 52) * 2 powi (qexp x + 1)"
      using powi2_split[of "qexp x + 1" "qexp x + 53"] by simp
    then have "\<bar>y\<bar> = of_int (2 ^ 52) * 2 powi (qexp x + 1)" unfolding True by simp
    then have "y = of_int (2 ^ 52) * 2 powi (qexp x + 1) \<or> y = of_int (- (2 ^ 52)) * 2 powi (qexp x + 1)"
      by (cases "0 \<le> y") simp_all
    then show "is_double y"
    proof
      assume "y = of_int (2 ^ 52) * 2 powi (qexp x + 1)"
      then show ?thesis by (rule is_doubleI) (use qy assms in \<open>simp_all add: y_def\<close>)
    next
      assume "y = of_int (- (2 ^ 52)) * 2 powi (qexp x + 1)"
      then show ?thesis by (rule is_doubleI) (use qy assms in \<open>simp_all add: y_def\<close>)
    qed
  qed
qed

lemma rnd_cases:
  obtains (fin) "rnd x = Fin (round_to_grid x)" "\<bar>round_to_grid x\<bar> < 2 powi 1024"
  | (pinf) "rnd x = PInf" "0 < x" "2 powi 1024 \<le> \<bar>round_to_grid x\<bar>"
  | (minf) "rnd x = MInf" "x \<le> 0" "2 powi 1024 \<le> \<bar>round_to_grid x\<bar>"
proof (cases "2 powi 1024 \<le> \<bar>round_to_grid x\<bar>")
  case False
  then have "\<bar>round_to_grid x\<bar> < 2 powi 1024" by simp
  with rnd_Fin[OF this] show ?thesis by (rule fin)
next
  case True
  show ?thesis
  proof (cases "0 < x")
    case p: True
    have "rnd x = PInf" unfolding rnd_def Let_def using True p by (simp only: if_True)
    then show ?thesis using p True by (rule pinf)
  next
    case n: False
    have "rnd x = MInf" unfolding rnd_def Let_def using True n by (simp only: if_True if_False)
    then show ?thesis using n True by (intro minf) simp_all
  qed
qed

lemma rnd_is_double: "rnd x = Fin y \<Longrightarrow> is_double y"
  by (cases x rule: rnd_cases) (auto intro: rtg_is_double)

lemma powi_1024_pos: "(0::real) < 2 powi 1024"
  by (rule zero_less_power_int) simp

lemma rnd_le:
  assumes g: "is_double g" and le: "x \<le> g"
  shows "dbl_le (rnd x) (Fin g)"
proof (cases x rule: rnd_cases)
  case fin
  then show ?thesis using bracket_upper[OF g le] by simp
next
  case pinf
  have "0 \<le> round_to_grid x"
    using bracket_lower[OF is_double_0, of x] pinf(2) by simp
  with pinf(3) have "2 powi 1024 \<le> round_to_grid x" by simp
  with bracket_upper[OF g le] is_doubleD(2)[OF g] show ?thesis by simp
next
  case minf
  then show ?thesis by simp
qed

lemma rnd_ge:
  assumes g: "is_double g" and le: "g \<le> x"
  shows "dbl_le (Fin g) (rnd x)"
proof (cases x rule: rnd_cases)
  case fin
  then show ?thesis using bracket_lower[OF g le] by simp
next
  case pinf
  then show ?thesis by simp
next
  case minf
  have "round_to_grid x \<le> 0"
    using bracket_upper[OF is_double_0, of x] minf(2) by simp
  with minf(3) have "round_to_grid x \<le> - (2 powi 1024)" by simp
  with bracket_lower[OF g le] is_doubleD(2)[OF g] show ?thesis by simp
qed

lemma dbl_le_Fin_right:
  assumes "dbl_le d (Fin g)"
  obtains y where "d = Fin y" "y \<le> g" | "d = MInf"
  using assms by (cases d) simp_all

lemma dbl_le_Fin_left:
  assumes "dbl_le (Fin g) d"
  obtains y where "d = Fin y" "g \<le> y" | "d = PInf"
  using assms by (cases d) simp_all

lemma is_double_mantissa:
  assumes "\<bar>k\<bar> < 2 ^ 53" and "- 1074 \<le> e" and "\<bar>of_int k * 2 powi e\<bar> < (2::real) powi 1024"
  shows "is_double (of_int k * 2 powi e)"
proof (rule is_doubleI[OF refl _ assms(3)])
  have "\<bar>of_int k * (2::real) powi e\<bar> = of_int \<bar>k\<bar> * 2 powi e" by (simp add: abs_mult)
  also have "\<dots> < of_int (2 ^ 53) * 2 powi e"
    using assms(1) by (intro mult_strict_right_mono) (simp_all only: of_int_less_iff zero_less_power_int zero_less_numeral)
  also have "\<dots> = 2 powi (e + 53)" using powi2_split[of e "e + 53"] by simp
  finally show "qexp (of_int k * 2 powi e) \<le> e" using assms(2) by (rule qexp_le_of_less)
qed

lemma rnd_between:
  assumes "is_double lo" and "is_double hi" and "lo \<le> x" and "x \<le> hi"
  obtains y where "rnd x = Fin y" "lo \<le> y" "y \<le> hi" "is_double y"
proof -
  from rnd_le[OF assms(2,4)] rnd_ge[OF assms(1,3)]
  obtain y where y: "rnd x = Fin y" "lo \<le> y" "y \<le> hi"
    by (cases "rnd x") simp_all
  from that[OF y rnd_is_double[OF y(1)]] show ?thesis .
qed

lemma rnd_double: "is_double x \<Longrightarrow> rnd x = Fin x"
  by (simp add: is_double_def)

lemma rnd_absorb:
  assumes q: "qexp x = e" and g: "g = of_int k * 2 powi e"
    and near: "\<bar>x - g\<bar> < 2 powi e / 2" and fin: "\<bar>g\<bar> < 2 powi 1024"
  shows "rnd x = Fin g"
proof -
  have qu: "quantum x = 2 powi e" by (simp add: quantum_def q)
  have "round_to_grid x = of_int k * quantum x"
    by (rule rtg_absorb) (use near in \<open>simp only: qu g[symmetric]\<close>)
  then have r: "round_to_grid x = g" by (simp only: qu g)
  show ?thesis using rnd_Fin[of x] fin by (simp only: r)
qed

lemma small_lt_huge: "x \<le> 2 powi 100 \<Longrightarrow> - (2 powi 100) \<le> x \<Longrightarrow> \<bar>x\<bar> < (2::real) powi 1024"
proof -
  assume "x \<le> 2 powi 100" "- (2 powi 100) \<le> x"
  then have "\<bar>x\<bar> \<le> 2 powi 100" by simp
  also have "(2::real) powi 100 < 2 powi 1024" by (simp only: powi2_less_iff; simp)
  finally show ?thesis .
qed

lemma succ_double:
  assumes d: "is_double w" and neg: "w < 0"
  shows "is_double (w + quantum w)"
proof -
  define K where "K = round_even (w / quantum w)"
  have wK: "w = of_int K * 2 powi qexp w" unfolding K_def by (rule is_doubleD(3)[OF d])
  have "of_int K * quantum w < 0" unfolding quantum_def wK[symmetric] by (rule neg)
  then have "(of_int K :: real) < 0" using quantum_pos[of w] by (simp add: mult_less_0_iff)
  then have K: "K + 1 \<le> 0" by simp
  from wK have "w + quantum w = of_int K * 2 powi qexp w + quantum w"
    by (rule arg_cong[where f = "\<lambda>z. z + quantum w"])
  also have "\<dots> = of_int (K + 1) * 2 powi qexp w"
    unfolding quantum_def of_int_add of_int_1 by (simp only: distrib_right mult_1)
  finally have eq: "w + quantum w = of_int (K + 1) * 2 powi qexp w" .
  have "(of_int (K + 1) :: real) \<le> of_int 0" using K by (simp only: of_int_le_iff)
  then have "(of_int (K + 1) :: real) \<le> 0" by simp
  then have le0: "w + quantum w \<le> 0"
    unfolding eq by (simp add: mult_le_0_iff)
  have abs: "\<bar>w + quantum w\<bar> \<le> \<bar>w\<bar>" using le0 neg quantum_pos[of w] by simp
  show ?thesis
  proof (rule is_doubleI[OF eq])
    show "qexp (w + quantum w) \<le> qexp w" using abs by (rule qexp_mono)
    show "\<bar>w + quantum w\<bar> < 2 powi 1024" using abs is_doubleD(2)[OF d] by linarith
  qed
qed

lemma round_even_error: "\<bar>of_int (round_even q) - q\<bar> \<le> 1 / 2"
proof -
  define f where "f = \<lfloor>q\<rfloor>"
  define r where "r = q - of_int f"
  have r: "0 \<le> r" "r < 1" unfolding r_def f_def by linarith+
  have q: "q = of_int f + r" by (simp add: r_def)
  have re: "round_even q =
      (if r < 1 / 2 then f else if 1 / 2 < r then f + 1 else if even f then f else f + 1)"
    by (simp add: round_even_def Let_def r_def f_def)
  have "\<bar>of_int (if r < 1 / 2 then f else if 1 / 2 < r then f + 1 else if even f then f else f + 1)
      - (of_int f + r)\<bar> \<le> 1 / 2"
    using r by auto
  then show ?thesis unfolding re[symmetric] q[symmetric] .
qed

lemma rtg_error: "\<bar>round_to_grid x - x\<bar> \<le> quantum x / 2"
proof -
  define Q where "Q = quantum x"
  have Q: "0 < Q" unfolding Q_def by (rule quantum_pos)
  have "round_to_grid x - x = (of_int (round_even (x / Q)) - x / Q) * Q"
    using Q by (simp add: round_to_grid_def Q_def field_simps)
  then have "\<bar>round_to_grid x - x\<bar> = \<bar>of_int (round_even (x / Q)) - x / Q\<bar> * Q"
    using Q by (simp add: abs_mult)
  also have "\<dots> \<le> 1 / 2 * Q" using round_even_error[of "x / Q"] Q by (intro mult_right_mono) simp_all
  finally show ?thesis by (simp add: Q_def)
qed

lemma rnd_value: "rnd x = Fin y \<Longrightarrow> y = round_to_grid x"
  by (cases x rule: rnd_cases) simp_all

lemma rnd_error: "rnd x = Fin y \<Longrightarrow> \<bar>y - x\<bar> \<le> quantum x / 2"
  using rtg_error[of x] rnd_value[of x y] by simp

lemma quantum_le_rounded: "quantum x \<le> quantum (round_to_grid x)"
proof (cases "\<bar>x\<bar> < 2 powi (- 1022)")
  case True
  then have "qexp x = - 1074" by (rule qexp_subnormal)
  then show ?thesis unfolding quantum_def using qexp_lower[of "round_to_grid x"]
    by (simp only: powi2_le_iff)
next
  case False
  then have n: "2 powi (- 1022) \<le> \<bar>x\<bar>" by linarith
  define e where "e = qexp x + 52"
  have lo: "2 powi e \<le> \<bar>x\<bar>" unfolding e_def using n by (rule binade_lower)
  have e: "- 1022 \<le> e"
  proof -
    have "- 1022 \<le> ilog2 \<bar>x\<bar>" using n by (rule ilog2_normal)
    then show ?thesis unfolding e_def qexp_normal[OF False] by simp
  qed
  have qe: "qexp x \<le> e" by (simp add: e_def)
  have big: "2 powi e \<le> \<bar>round_to_grid x\<bar>"
  proof (cases "0 \<le> x")
    case True
    with lo have "of_int 1 * 2 powi e \<le> x" by simp
    from rtg_ge_multiple[OF this qe] show ?thesis by simp
  next
    case False
    with lo have "x \<le> of_int (- 1) * 2 powi e" by simp
    from rtg_le_multiple[OF this qe] show ?thesis by simp
  qed
  have p: "qexp (2 powi e) = e - 52"
    by (rule qexp_eq) (simp_all add: e powi2_less_iff)
  have "\<bar>(2::real) powi e\<bar> \<le> \<bar>round_to_grid x\<bar>" using big by simp
  then have "qexp (2 powi e) \<le> qexp (round_to_grid x)" by (rule qexp_mono)
  then have "qexp x \<le> qexp (round_to_grid x)" unfolding p by (simp add: e_def)
  then show ?thesis unfolding quantum_def by (simp only: powi2_le_iff)
qed

lemma rnd_error_result: "rnd x = Fin y \<Longrightarrow> \<bar>y - x\<bar> \<le> quantum y / 2"
  using rtg_error[of x] quantum_le_rounded[of x] rnd_value[of x y] by simp

lemma quantum_between:
  assumes "lo \<le> x" and "x \<le> hi"
  shows "quantum x \<le> max (quantum lo) (quantum hi)"
proof (cases "0 \<le> x")
  case True
  then have "\<bar>x\<bar> \<le> \<bar>hi\<bar>" using assms by simp
  from quantum_mono[OF this] show ?thesis by simp
next
  case False
  then have "\<bar>x\<bar> \<le> \<bar>lo\<bar>" using assms by simp
  from quantum_mono[OF this] show ?thesis by simp
qed

section \<open>Particular doubles and the literals of the simulator\<close>

lemma is_double_pow2: "- 1074 \<le> e \<Longrightarrow> e < 1024 \<Longrightarrow> is_double (2 powi e)"
proof -
  assume e: "- 1074 \<le> e" "e < 1024"
  have "(2::real) powi e < 2 powi 1024" using e(2) by (simp only: powi2_less_iff)
  then have "\<bar>of_int 1 * (2::real) powi e\<bar> < 2 powi 1024" by simp
  from is_double_mantissa[OF _ e(1) this] show ?thesis by simp
qed

lemma is_double_8: "is_double 8"
  using is_double_pow2[of 3] by simp

lemma is_double_16: "is_double 16"
  using is_double_pow2[of 4] by simp

lemma is_double_1: "is_double 1"
  using is_double_pow2[of 0] by simp

lemma is_double_m1: "is_double (- 1)"
  using is_double_minus[OF is_double_1] by simp

lemma is_double_1024: "is_double 1024"
  using is_double_pow2[of 10] by simp

lemma is_double_1e17: "is_double (- 100000000000000000)"
proof -
  have "is_double (of_int (- 762939453125) * 2 powi 17)"
    by (rule is_double_mantissa) (simp_all add: small_lt_huge)
  then show ?thesis by simp
qed

lemma big_start_double: "is_double big_start"
proof -
  have "is_double (of_int 3 * 2 powi 44)"
    by (rule is_double_mantissa) (simp_all add: small_lt_huge)
  then show ?thesis by (simp add: big_start_def)
qed

lemma big_start_absorbs:
  assumes "- (2 powi (- 9)) \<le> p" and "p \<le> 0"
  shows "rnd (big_start + p) = Fin big_start"
proof (rule rnd_absorb[where e = "- 7" and k = "3 * 2 ^ 51"])
  show "qexp (big_start + p) = - 7"
    using qexp_eq[of 45 "big_start + p"] assms by (simp add: abs_if big_start_def)
  show "big_start = of_int (3 * 2 ^ 51) * 2 powi (- 7)" by (simp add: big_start_def)
  show "\<bar>big_start + p - big_start\<bar> < 2 powi (- 7) / 2" using assms by simp
  show "\<bar>big_start\<bar> < 2 powi 1024" by (rule small_lt_huge) (simp_all add: big_start_def)
qed

lemma quantum_m1: "quantum (- 1) = 2 powi (- 52)"
proof -
  have "qexp (- 1) = 0 - 52" by (rule qexp_eq) simp_all
  then show ?thesis by (simp add: quantum_def)
qed

lemma g_lit:
  obtains gt where "rnd 9.8 = Fin gt" "8 \<le> gt" "gt \<le> 16" "is_double gt"
  by (rule rnd_between[OF is_double_8 is_double_16, of "9.8"]) simp_all

lemma dt_lit:
  obtains t where "rnd 0.001 = Fin t" "2 powi (- 10) \<le> t" "t \<le> 2 powi (- 9)" "is_double t"
  by (rule rnd_between[OF is_double_pow2[of "- 10"] is_double_pow2[of "- 9"], of "0.001"]) simp_all

lemma dt_pos: "rnd 0.001 = Fin t \<Longrightarrow> 0 < t"
proof -
  assume a: "rnd 0.001 = Fin t"
  obtain t' where t: "rnd 0.001 = Fin t'" "2 powi (- 10) \<le> t'" by (rule dt_lit)
  have "0 < t'" using t(2) by (rule pos_of_normal[OF order_trans[rotated]]) (simp only: powi2_le_iff; simp)
  with a t(1) show ?thesis by simp
qed

lemma unit_increment:
  obtains ct where "dbl_mul (dbl_mul (Fin 1) (rnd 9.8)) (rnd 0.001) = Fin ct"
    "2 powi (- 7) \<le> ct" "ct \<le> 2 powi (- 5)" "is_double ct"
proof -
  obtain gt where g: "rnd 9.8 = Fin gt" "8 \<le> gt" "gt \<le> 16" "is_double gt" by (rule g_lit)
  obtain t where t: "rnd 0.001 = Fin t" "2 powi (- 10) \<le> t" "t \<le> 2 powi (- 9)" by (rule dt_lit)
  have t0: "0 \<le> t" using t(2) by (smt (verit) zero_le_power_int)
  have a: "dbl_mul (Fin 1) (rnd 9.8) = Fin gt" unfolding g(1) by (simp add: rnd_double[OF g(4)])
  have lo: "2 powi (- 7) \<le> gt * t"
  proof -
    have "(2::real) powi (- 7) = 8 * 2 powi (- 10)" by simp
    also have "\<dots> \<le> gt * t" using g(2) t(2) by (intro mult_mono) simp_all
    finally show ?thesis .
  qed
  have hi: "gt * t \<le> 2 powi (- 5)"
  proof -
    have "gt * t \<le> 16 * 2 powi (- 9)" using g(2,3) t(3) t0 by (intro mult_mono) simp_all
    also have "\<dots> = (2::real) powi (- 5)" by simp
    finally show ?thesis .
  qed
  obtain ct where "rnd (gt * t) = Fin ct" "2 powi (- 7) \<le> ct" "ct \<le> 2 powi (- 5)" "is_double ct"
    by (rule rnd_between[OF is_double_pow2[of "- 7"] is_double_pow2[of "- 5"] lo hi]) simp_all
  then show ?thesis using that unfolding a t(1) by simp
qed

lemma strong_increment:
  obtains c where "dbl_mul (dbl_mul (Fin 1024) (rnd 9.8)) (rnd 0.001) = Fin c" "4 \<le> c"
proof -
  obtain gt where g: "rnd 9.8 = Fin gt" "8 \<le> gt" "gt \<le> 16" by (rule g_lit)
  obtain t where t: "rnd 0.001 = Fin t" "2 powi (- 10) \<le> t" "t \<le> 2 powi (- 9)" by (rule dt_lit)
  have t0: "0 < t" using t(1) by (rule dt_pos)
  have lo: "is_double (2 powi 13)" and hi: "is_double (2 powi 14)"
    by (rule is_double_pow2; simp)+
  obtain a where a: "rnd (1024 * gt) = Fin a" "2 powi 13 \<le> a" "a \<le> 2 powi 14"
    using rnd_between[OF lo hi, of "1024 * gt"] g(2,3) by auto
  have lo': "is_double (2 powi 2)" and hi': "is_double (2 powi 5)"
    by (rule is_double_pow2; simp)+
  have "2 powi 2 \<le> a * t"
  proof -
    have "(2::real) powi 2 = 2 powi 13 * 2 powi (- 11)" by simp
    also have "\<dots> \<le> a * t" using a(2) t(2) by (intro mult_mono) simp_all
    finally show ?thesis .
  qed
  moreover have "a * t \<le> 2 powi 5"
  proof -
    have "a * t \<le> 2 powi 14 * 2 powi (- 9)" using a(2,3) t(3) t0 by (intro mult_mono) simp_all
    then show ?thesis by simp
  qed
  ultimately obtain c where "rnd (a * t) = Fin c" "2 powi 2 \<le> c"
    using rnd_between[OF lo' hi'] by blast
  then show ?thesis using that unfolding g(1) t(1) by (simp add: a(1))
qed

lemma increment_nonneg:
  assumes al: "is_double alpha" "0 < alpha"
    and inc: "dbl_mul (dbl_mul (Fin alpha) (rnd 9.8)) (rnd 0.001) = Fin c"
  shows "0 \<le> c" and "is_double c"
proof -
  obtain gt where g: "rnd 9.8 = Fin gt" "8 \<le> gt" by (rule g_lit)
  obtain t where t: "rnd 0.001 = Fin t" "2 powi (- 10) \<le> t" by (rule dt_lit)
  have t0: "0 < t" using t(1) by (rule dt_pos)
  have "0 \<le> alpha * gt" using al(2) g(2) by simp
  from rnd_ge[OF is_double_0 this] inc obtain a where a: "rnd (alpha * gt) = Fin a" "0 \<le> a"
    unfolding g(1) t(1) by (cases rule: dbl_le_Fin_left) (auto split: if_splits)
  from inc have c: "rnd (a * t) = Fin c" unfolding g(1) t(1) by (simp add: a(1))
  have "0 \<le> a * t" using a(2) t0 by simp
  from rnd_ge[OF is_double_0 this] show "0 \<le> c" unfolding c by simp
  from c show "is_double c" by (rule rnd_is_double)
qed

lemma first_step_m1:
  obtains y where "dbl_add (Fin 1) (dbl_mul (Fin (- 1)) (rnd 0.001)) = Fin y" "y \<le> 1 - 2 powi (- 10)"
proof -
  obtain t where t: "rnd 0.001 = Fin t" "2 powi (- 10) \<le> t" "t \<le> 2 powi (- 9)" "is_double t"
    by (rule dt_lit)
  have p: "dbl_mul (Fin (- 1)) (rnd 0.001) = Fin (- t)"
    unfolding t(1) using rnd_double[OF is_double_minus[OF t(4)]] by simp
  have g: "is_double (of_int 1023 * 2 powi (- 10))"
    by (rule is_double_mantissa) (simp_all add: small_lt_huge)
  have lo: "is_double (2 powi (- 1))" by (rule is_double_pow2) simp_all
  have "(1::real) - t \<le> of_int 1023 * 2 powi (- 10)" using t(2) by simp
  moreover have "2 powi (- 1) \<le> (1::real) - t" using t(3) by simp
  ultimately obtain y where "rnd (1 - t) = Fin y" "y \<le> of_int 1023 * 2 powi (- 10)"
    using rnd_between[OF lo g] by blast
  then show ?thesis using that unfolding p by simp
qed

lemma tiny_velocity:
  obtains v0 where "rnd (- 1 / 10 ^ 20) = Fin v0" "- (2 powi (- 66)) \<le> v0" "v0 \<le> - (2 powi (- 67))"
    "is_double v0"
proof -
  have lo: "is_double (- (2 powi (- 66)))" by (rule is_double_minus[OF is_double_pow2]) simp_all
  have hi: "is_double (- (2 powi (- 67)))" by (rule is_double_minus[OF is_double_pow2]) simp_all
  show ?thesis
    by (rule rnd_between[OF lo hi, of "- 1 / 10 ^ 20"]) (use that in simp_all)
qed

section \<open>The loop on doubles\<close>

lemma loop_f64_stop:
  "\<not> dbl_below_zero (snd st) \<Longrightarrow> euler_loop_f64 a dt st k = Some (fst st, k)"
  by (subst euler_loop_f64.simps) simp

lemma loop_f64_pass:
  "dbl_below_zero (snd st) \<Longrightarrow>
     euler_loop_f64 a dt st k = euler_loop_f64 a dt (euler_step_f64 a dt st) (Suc k)"
  by (subst euler_loop_f64.simps) simp

lemma loop_f64_invariant:
  assumes run: "euler_loop_f64 a dt st k = Some r"
    and init: "I st"
    and step: "\<And>st. I st \<Longrightarrow> dbl_below_zero (snd st) \<Longrightarrow> I (euler_step_f64 a dt st)"
  shows "\<exists>st'. I st' \<and> \<not> dbl_below_zero (snd st') \<and> fst r = fst st'"
proof -
  have "a = a \<and> dt = dt \<and> I st \<longrightarrow>
      (\<exists>st'. I st' \<and> \<not> dbl_below_zero (snd st') \<and> fst r = fst st')"
  proof (rule euler_loop_f64.raw_induct
      [where P = "\<lambda>a' dt' st k r. a' = a \<and> dt' = dt \<and> I st \<longrightarrow>
         (\<exists>st'. I st' \<and> \<not> dbl_below_zero (snd st') \<and> fst r = fst st')", OF _ run])
    fix f :: "dbl \<Rightarrow> dbl \<Rightarrow> dbl \<times> dbl \<Rightarrow> nat \<Rightarrow> (dbl \<times> nat) option"
    fix a' dt' st k r
    assume IH: "\<And>a' dt' st k r. f a' dt' st k = Some r \<Longrightarrow>
        a' = a \<and> dt' = dt \<and> I st \<longrightarrow>
        (\<exists>st'. I st' \<and> \<not> dbl_below_zero (snd st') \<and> fst r = fst st')"
      and body: "(if dbl_below_zero (snd st) then f a' dt' (euler_step_f64 a' dt' st) (Suc k)
        else Some (fst st, k)) = Some r"
    show "a' = a \<and> dt' = dt \<and> I st \<longrightarrow>
        (\<exists>st'. I st' \<and> \<not> dbl_below_zero (snd st') \<and> fst r = fst st')"
    proof (intro impI, elim conjE)
      assume eq: "a' = a" "dt' = dt" and I: "I st"
      show "\<exists>st'. I st' \<and> \<not> dbl_below_zero (snd st') \<and> fst r = fst st'"
      proof (cases "dbl_below_zero (snd st)")
        case True
        with body have "f a' dt' (euler_step_f64 a' dt' st) (Suc k) = Some r" by simp
        from IH[OF this] step[OF I True] eq show ?thesis by simp
      next
        case False
        with body have "fst r = fst st" by auto
        with I False show ?thesis by blast
      qed
    qed
  qed
  with init show ?thesis by simp
qed

lemma loop_f64_diverges:
  assumes init: "I st"
    and step: "\<And>st. I st \<Longrightarrow> dbl_below_zero (snd st) \<and> I (euler_step_f64 a dt st)"
  shows "euler_loop_f64 a dt st k = None"
proof (cases "euler_loop_f64 a dt st k")
  case None
  then show ?thesis .
next
  case (Some r)
  have "\<exists>st'. I st' \<and> \<not> dbl_below_zero (snd st') \<and> fst r = fst st'"
    by (rule loop_f64_invariant[where I = I, OF Some init]) (use step in blast)
  with step show ?thesis by blast
qed

lemma loop_f64_terminates:
  fixes m :: "dbl \<times> dbl \<Rightarrow> nat"
  assumes init: "I st"
    and step: "\<And>st. I st \<Longrightarrow> dbl_below_zero (snd st) \<Longrightarrow>
      I (euler_step_f64 a dt st) \<and> m (euler_step_f64 a dt st) < m st"
  shows "\<exists>r. euler_loop_f64 a dt st k = Some r"
  using init
proof (induction "m st" arbitrary: st k rule: less_induct)
  case less
  show ?case
  proof (cases "dbl_below_zero (snd st)")
    case False
    then show ?thesis by (simp add: loop_f64_stop)
  next
    case True
    from step[OF less.prems True]
    have I': "I (euler_step_f64 a dt st)" and m': "m (euler_step_f64 a dt st) < m st" by simp_all
    from less.hyps[OF m' I'] show ?thesis by (simp add: loop_f64_pass[OF True])
  qed
qed

lemma loop_f64_trace:
  assumes "euler_loop_f64 a dt st k = Some res"
  shows "\<exists>n. res = (fst ((euler_step_f64 a dt ^^ n) st), k + n)
      \<and> \<not> dbl_below_zero (snd ((euler_step_f64 a dt ^^ n) st))
      \<and> (\<forall>j<n. dbl_below_zero (snd ((euler_step_f64 a dt ^^ j) st)))"
proof (rule euler_loop_f64.raw_induct
    [where P = "\<lambda>a dt st k res. \<exists>n. res = (fst ((euler_step_f64 a dt ^^ n) st), k + n)
      \<and> \<not> dbl_below_zero (snd ((euler_step_f64 a dt ^^ n) st))
      \<and> (\<forall>j<n. dbl_below_zero (snd ((euler_step_f64 a dt ^^ j) st)))", OF _ assms])
  fix f :: "dbl \<Rightarrow> dbl \<Rightarrow> dbl \<times> dbl \<Rightarrow> nat \<Rightarrow> (dbl \<times> nat) option"
  fix a dt st k res
  assume IH: "\<And>a dt st k res. f a dt st k = Some res \<Longrightarrow>
      \<exists>n. res = (fst ((euler_step_f64 a dt ^^ n) st), k + n)
      \<and> \<not> dbl_below_zero (snd ((euler_step_f64 a dt ^^ n) st))
      \<and> (\<forall>j<n. dbl_below_zero (snd ((euler_step_f64 a dt ^^ j) st)))"
    and body: "(if dbl_below_zero (snd st) then f a dt (euler_step_f64 a dt st) (Suc k)
      else Some (fst st, k)) = Some res"
  show "\<exists>n. res = (fst ((euler_step_f64 a dt ^^ n) st), k + n)
      \<and> \<not> dbl_below_zero (snd ((euler_step_f64 a dt ^^ n) st))
      \<and> (\<forall>j<n. dbl_below_zero (snd ((euler_step_f64 a dt ^^ j) st)))"
  proof (cases "dbl_below_zero (snd st)")
    case True
    with body have "f a dt (euler_step_f64 a dt st) (Suc k) = Some res" by simp
    from IH[OF this] obtain n where n:
      "res = (fst ((euler_step_f64 a dt ^^ n) (euler_step_f64 a dt st)), Suc k + n)"
      "\<not> dbl_below_zero (snd ((euler_step_f64 a dt ^^ n) (euler_step_f64 a dt st)))"
      "\<forall>j<n. dbl_below_zero (snd ((euler_step_f64 a dt ^^ j) (euler_step_f64 a dt st)))"
      by blast
    have "\<forall>j<Suc n. dbl_below_zero (snd ((euler_step_f64 a dt ^^ j) st))"
    proof (intro allI impI)
      fix j assume j: "j < Suc n"
      show "dbl_below_zero (snd ((euler_step_f64 a dt ^^ j) st))"
      proof (cases j)
        case 0
        then show ?thesis using True by simp
      next
        case (Suc i)
        with j n(3) show ?thesis by (simp add: funpow_swap1)
      qed
    qed
    with n(1,2) have "res = (fst ((euler_step_f64 a dt ^^ Suc n) st), k + Suc n)
      \<and> \<not> dbl_below_zero (snd ((euler_step_f64 a dt ^^ Suc n) st))
      \<and> (\<forall>j<Suc n. dbl_below_zero (snd ((euler_step_f64 a dt ^^ j) st)))"
      by (simp add: funpow_swap1)
    then show ?thesis ..
  next
    case False
    with body have "res = (fst ((euler_step_f64 a dt ^^ 0) st), k + 0)
      \<and> \<not> dbl_below_zero (snd ((euler_step_f64 a dt ^^ 0) st))
      \<and> (\<forall>j<0. dbl_below_zero (snd ((euler_step_f64 a dt ^^ j) st)))"
      by auto
    then show ?thesis ..
  qed
qed

lemma loop_f64_run:
  "(\<forall>j<n. dbl_below_zero (snd ((euler_step_f64 a dt ^^ j) st))) \<Longrightarrow>
     euler_loop_f64 a dt st k = euler_loop_f64 a dt ((euler_step_f64 a dt ^^ n) st) (k + n)"
proof (induction n arbitrary: st k)
  case 0
  show ?case by simp
next
  case (Suc n)
  have neg: "dbl_below_zero (snd st)" using Suc.prems by (auto dest: spec[of _ 0])
  have rest: "\<forall>j<n. dbl_below_zero (snd ((euler_step_f64 a dt ^^ j) (euler_step_f64 a dt st)))"
  proof (intro allI impI)
    fix j assume "j < n"
    then have "dbl_below_zero (snd ((euler_step_f64 a dt ^^ Suc j) st))" using Suc.prems by auto
    then show "dbl_below_zero (snd ((euler_step_f64 a dt ^^ j) (euler_step_f64 a dt st)))"
      by (simp add: funpow_swap1)
  qed
  have "euler_loop_f64 a dt st k = euler_loop_f64 a dt (euler_step_f64 a dt st) (Suc k)"
    using neg by (rule loop_f64_pass)
  also have "\<dots> = euler_loop_f64 a dt ((euler_step_f64 a dt ^^ n) (euler_step_f64 a dt st)) (Suc k + n)"
    by (rule Suc.IH[OF rest])
  finally show ?case by (simp add: funpow_swap1)
qed

lemma run_of_results:
  assumes "restingPosition_f64 s v alpha = Some r" and "restingIterations_f64 s v alpha = Some n"
  shows "euler_loop_f64 (dbl_mul alpha (rnd 9.8)) (rnd 0.001) (s, v) 0 = Some (r, n)"
  using assms unfolding restingPosition_f64_def restingIterations_f64_def Let_def by auto

lemma results_of_run:
  assumes "euler_loop_f64 (dbl_mul alpha (rnd 9.8)) (rnd 0.001) (s, v) 0 = Some (r, n)"
  shows "restingPosition_f64 s v alpha = Some r" and "restingIterations_f64 s v alpha = Some n"
  using assms unfolding restingPosition_f64_def restingIterations_f64_def Let_def by simp_all

section \<open>Position and velocity along a run on doubles\<close>

lemma at_most_iff: "at_most b d \<longleftrightarrow> d = MInf \<or> (\<exists>y. d = Fin y \<and> y \<le> b \<and> is_double y)"
  by (cases d) (simp_all add: at_most_def)

lemma at_most_le: "at_most b d \<Longrightarrow> dbl_le d (Fin b)"
  by (auto simp: at_most_iff)

lemma at_most_mono: "at_most b d \<Longrightarrow> b \<le> b' \<Longrightarrow> at_most b' d"
  by (auto simp: at_most_iff)

lemma rnd_at_most:
  assumes "is_double g" and "x \<le> g"
  shows "at_most g (rnd x)"
proof -
  from rnd_le[OF assms] show ?thesis
  proof (cases rule: dbl_le_Fin_right)
    case (1 y)
    with rnd_is_double[OF 1(1)] show ?thesis by (simp add: at_most_iff)
  next
    case 2
    then show ?thesis by (simp add: at_most_iff)
  qed
qed

lemma below_zero_times_dt:
  assumes "dbl_below_zero v" and "0 < t"
  shows "at_most 0 (dbl_mul v (Fin t))"
proof (cases v)
  case (Fin w)
  with assms have "w * t \<le> 0" by (simp add: mult_le_0_iff)
  from rnd_at_most[OF is_double_0 this] Fin show ?thesis by simp
next
  case MInf
  with assms show ?thesis by (simp add: at_most_iff)
qed (use assms in simp_all)

lemma add_at_most:
  assumes "at_most b s" and "at_most 0 d"
  shows "at_most b (dbl_add s d)"
proof -
  from assms(1) consider "s = MInf" | y where "s = Fin y" "y \<le> b" "is_double y"
    by (auto simp: at_most_iff)
  then show ?thesis
  proof cases
    case 1
    with assms(2) show ?thesis by (auto simp: at_most_iff)
  next
    case 2
    from assms(2) consider "d = MInf" | e where "d = Fin e" "e \<le> 0"
      by (auto simp: at_most_iff)
    then show ?thesis
    proof cases
      case 1
      with 2 show ?thesis by (simp add: at_most_iff)
    next
      case 2
      have "at_most y (rnd (y + e))" by (rule rnd_at_most) (use \<open>is_double y\<close> 2 in simp_all)
      then show ?thesis using \<open>s = Fin y\<close> 2 \<open>y \<le> b\<close> by (auto intro: at_most_mono)
    qed
  qed
qed

lemma position_never_increases:
  assumes run: "euler_loop_f64 a (Fin t) st k = Some r" and t: "0 < t"
    and init: "at_most b (fst st)"
  shows "at_most b (fst r)"
proof -
  have "\<exists>st'. at_most b (fst st') \<and> \<not> dbl_below_zero (snd st') \<and> fst r = fst st'"
  proof (rule loop_f64_invariant[where I = "\<lambda>st. at_most b (fst st)", OF run init])
    fix st :: "dbl \<times> dbl"
    assume "at_most b (fst st)" and "dbl_below_zero (snd st)"
    then show "at_most b (fst (euler_step_f64 a (Fin t) st))"
      unfolding euler_step_f64_def fst_conv
      by (intro add_at_most below_zero_times_dt t)
  qed
  then show ?thesis by auto
qed

lemma below_start:
  assumes s: "is_double s" and v: "is_double v" "v < 0"
    and run: "restingPosition_f64 (Fin s) (Fin v) alpha = Some r"
  shows "dbl_le r (Fin s)
     \<and> (dbl_add (Fin s) (dbl_mul (Fin v) (rnd 0.001)) \<noteq> Fin s \<longrightarrow> r \<noteq> Fin s)"
proof -
  obtain t where t: "rnd 0.001 = Fin t" "2 powi (- 10) \<le> t" by (rule dt_lit)
  have t0: "0 < t" using t(2) by (rule pos_of_normal[OF order_trans[rotated]]) (simp only: powi2_le_iff; simp)
  define a where "a = dbl_mul alpha (rnd 9.8)"
  from run obtain n where loop: "euler_loop_f64 a (Fin t) (Fin s, Fin v) 0 = Some (r, n)"
    unfolding restingPosition_f64_def Let_def a_def[symmetric] t(1) by auto
  have s0: "at_most s (Fin s)" using s by (simp add: at_most_iff)
  have le: "at_most s r"
    using position_never_increases[OF loop t0, of s] s0 by simp
  define s1 where "s1 = dbl_add (Fin s) (dbl_mul (Fin v) (Fin t))"
  have s1: "at_most s s1" unfolding s1_def
    by (intro add_at_most s0 below_zero_times_dt t0) (use v in simp)
  have strict: "r \<noteq> Fin s" if ne: "s1 \<noteq> Fin s"
  proof -
    have pass: "euler_loop_f64 a (Fin t) (s1, dbl_add (Fin v) (dbl_mul a (Fin t))) (Suc 0) = Some (r, n)"
      using loop v by (subst (asm) loop_f64_pass) (simp_all add: euler_step_f64_def s1_def)
    from s1 ne obtain b where b: "b < s" "at_most b s1"
    proof (cases s1)
      case (Fin y)
      with s1 ne have "y < s" "at_most y s1" by (auto simp: at_most_iff)
      then show ?thesis by (rule that)
    next
      case MInf
      have "s - 1 < s" "at_most (s - 1) s1" using MInf by (simp_all add: at_most_iff)
      then show ?thesis by (rule that)
    qed (auto simp: at_most_iff)
    from position_never_increases[OF pass t0, of b] b(2) have "at_most b r" by simp
    with b(1) show ?thesis by (auto simp: at_most_iff)
  qed
  show ?thesis unfolding t(1) s1_def[symmetric] using at_most_le[OF le] strict by blast
qed

lemma at_most_below_zero: "at_most b d \<Longrightarrow> b < 0 \<Longrightarrow> dbl_below_zero d"
  by (auto simp: at_most_iff)

lemma nonpos_increment:
  assumes "is_double alpha" and "alpha \<le> 0"
  shows "at_most 0 (dbl_mul (dbl_mul (Fin alpha) (rnd 9.8)) (rnd 0.001))"
proof -
  obtain gt where g: "rnd 9.8 = Fin gt" "8 \<le> gt" by (rule g_lit)
  obtain t where t: "rnd 0.001 = Fin t" "2 powi (- 10) \<le> t" by (rule dt_lit)
  have t0: "0 < t" using t(2) by (rule pos_of_normal[OF order_trans[rotated]]) (simp only: powi2_le_iff; simp)
  have "alpha * gt \<le> 0" using assms(2) g(2) by (simp add: mult_le_0_iff)
  then have a: "at_most 0 (rnd (alpha * gt))" by (rule rnd_at_most[OF is_double_0])
  have "dbl_below_zero (rnd (alpha * gt)) \<or> rnd (alpha * gt) = Fin 0"
    using a by (auto simp: at_most_iff order_le_less)
  then show ?thesis unfolding g(1) t(1) dbl_mul.simps
  proof
    assume "dbl_below_zero (rnd (alpha * gt))"
    then show "at_most 0 (dbl_mul (rnd (alpha * gt)) (Fin t))" using t0 by (rule below_zero_times_dt)
  next
    assume "rnd (alpha * gt) = Fin 0"
    then show "at_most 0 (dbl_mul (rnd (alpha * gt)) (Fin t))"
      using rnd_double[OF is_double_0] is_double_0 by (simp add: at_most_iff)
  qed
qed

lemma f64_runs_forever:
  assumes v: "is_double v" "v < 0" and c: "at_most 0 (dbl_mul a dt)"
  shows "euler_loop_f64 a dt (s, Fin v) k = None"
proof (rule loop_f64_diverges[where I = "\<lambda>st. at_most v (snd st)"])
  show "at_most v (snd (s, Fin v))" using v by (simp add: at_most_iff)
next
  fix st :: "dbl \<times> dbl"
  assume I: "at_most v (snd st)"
  have "at_most v (dbl_add (snd st) (dbl_mul a dt))" using I c by (rule add_at_most)
  with at_most_below_zero[OF I v(2)]
  show "dbl_below_zero (snd st) \<and> at_most v (snd (euler_step_f64 a dt st))"
    by (simp add: euler_step_f64_def)
qed

lemma steps_left_Fin: "steps_left (Fin w) = nat \<lceil>- w * grid_scale\<rceil>"
  by (simp add: steps_left_def)

lemma steps_left_PInf: "steps_left PInf = 0"
  by (simp add: steps_left_def)

lemma grid_scale_pos: "0 < grid_scale"
  unfolding grid_scale_def by (rule zero_less_power_int) simp

lemma grid_scale_inverse: "2 powi (- 1074) * grid_scale = 1"
proof -
  have "(2::real) powi (- 1074) * 2 powi 1074 = 2 powi (- 1074 + 1074)"
    by (rule power_int_add[symmetric]) simp
  then show ?thesis by (simp add: grid_scale_def)
qed

lemma f64_terminates:
  assumes v: "is_double v" "v < 0" and c: "dbl_le (Fin (quantum v)) (dbl_mul a dt)"
  shows "\<exists>r. euler_loop_f64 a dt (s, Fin v) k = Some r"
proof (rule loop_f64_terminates[where
      I = "\<lambda>st. snd st = PInf \<or> (\<exists>w. snd st = Fin w \<and> is_double w \<and> v \<le> w)"
      and m = "\<lambda>st. steps_left (snd st)"])
  show "snd (s, Fin v) = PInf \<or> (\<exists>w. snd (s, Fin v) = Fin w \<and> is_double w \<and> v \<le> w)"
    using v by simp
next
  fix st :: "dbl \<times> dbl"
  assume I: "snd st = PInf \<or> (\<exists>w. snd st = Fin w \<and> is_double w \<and> v \<le> w)"
    and guard: "dbl_below_zero (snd st)"
  from I guard obtain w where w: "snd st = Fin w" "is_double w" "v \<le> w" "w < 0" by auto
  define M :: real where "M = grid_scale"
  have M: "0 < M" unfolding M_def by (rule grid_scale_pos)
  have old: "1 \<le> steps_left (snd st)"
  proof -
    have "0 < - w * M" using w(4) M by (simp add: mult_less_0_iff)
    then have "0 < \<lceil>- w * M\<rceil>" by simp
    then have "1 \<le> nat \<lceil>- w * M\<rceil>" by linarith
    then show ?thesis unfolding w(1) steps_left_Fin M_def .
  qed
  from c consider "dbl_mul a dt = PInf" | ct where "dbl_mul a dt = Fin ct" "quantum v \<le> ct"
    by (rule dbl_le_Fin_left) auto
  then show "(snd (euler_step_f64 a dt st) = PInf \<or>
       (\<exists>w. snd (euler_step_f64 a dt st) = Fin w \<and> is_double w \<and> v \<le> w))
      \<and> steps_left (snd (euler_step_f64 a dt st)) < steps_left (snd st)"
  proof cases
    case 1
    then have "snd (euler_step_f64 a dt st) = PInf" by (simp add: euler_step_f64_def w(1))
    then show ?thesis using old by (simp add: steps_left_PInf)
  next
    case 2
    have "\<bar>w\<bar> \<le> \<bar>v\<bar>" using w(3,4) by simp
    then have "quantum w \<le> quantum v" by (rule quantum_mono)
    with 2(2) have up: "w + quantum w \<le> w + ct" by simp
    from rnd_ge[OF succ_double[OF w(2,4)] up]
    show ?thesis
    proof (cases rule: dbl_le_Fin_left)
      case 2
      then have "snd (euler_step_f64 a dt st) = PInf"
        by (simp add: euler_step_f64_def w(1) \<open>dbl_mul a dt = Fin ct\<close>)
      then show ?thesis using old by (simp add: steps_left_PInf)
    next
      case (1 w')
      then have new: "snd (euler_step_f64 a dt st) = Fin w'"
        by (simp add: euler_step_f64_def w(1) \<open>dbl_mul a dt = Fin ct\<close>)
      have d': "is_double w'" using 1(1) by (rule rnd_is_double)
      have "w \<le> w'" using 1(2) quantum_pos[of w] by linarith
      with w(3) have vw': "v \<le> w'" by linarith
      have "1 \<le> quantum w * M"
      proof -
        have "2 powi (- 1074) * M \<le> quantum w * M"
          using quantum_least[of w] M by (intro mult_right_mono) simp_all
        moreover have "2 powi (- 1074) * M = 1"
          unfolding M_def by (rule grid_scale_inverse)
        ultimately show ?thesis by simp
      qed
      moreover have "(w + quantum w) * M \<le> w' * M"
        using 1(2) M by (intro mult_right_mono) simp_all
      ultimately have "- w' * M \<le> - w * M - 1" by (simp add: algebra_simps)
      then have "\<lceil>- w' * M\<rceil> \<le> \<lceil>- w * M\<rceil> - 1" by linarith
      moreover have "0 < \<lceil>- w * M\<rceil>"
        using w(4) M by (simp add: mult_less_0_iff)
      ultimately have "nat \<lceil>- w' * M\<rceil> < nat \<lceil>- w * M\<rceil>" by linarith
      then have "steps_left (snd (euler_step_f64 a dt st)) < steps_left (snd st)"
        unfolding new w(1) steps_left_Fin M_def .
      with new d' vw' show ?thesis by simp
    qed
  qed
qed

section \<open>An Euler recurrence with bounded perturbations\<close>

lemma perturbed_velocity:
  fixes vq :: "nat \<Rightarrow> real"
  assumes v0: "vq 0 = u"
    and step: "\<And>k. k < n \<Longrightarrow> \<bar>vq (Suc k) - (vq k + c)\<bar> \<le> ev"
    and k: "k \<le> n"
  shows "\<bar>vq k - (u + real k * (A * h))\<bar> \<le> real k * (\<bar>c - A * h\<bar> + ev)"
  using k
proof (induction k)
  case 0
  then show ?case by (simp add: v0)
next
  case (Suc k)
  then have IH: "\<bar>vq k - (u + real k * (A * h))\<bar> \<le> real k * (\<bar>c - A * h\<bar> + ev)" and kn: "k < n"
    by simp_all
  have "vq (Suc k) - (u + real (Suc k) * (A * h))
      = (vq (Suc k) - (vq k + c)) + (vq k - (u + real k * (A * h))) + (c - A * h)"
    by (simp add: algebra_simps)
  then have "\<bar>vq (Suc k) - (u + real (Suc k) * (A * h))\<bar>
      \<le> \<bar>vq (Suc k) - (vq k + c)\<bar> + \<bar>vq k - (u + real k * (A * h))\<bar> + \<bar>c - A * h\<bar>"
    by linarith
  also have "\<dots> \<le> ev + real k * (\<bar>c - A * h\<bar> + ev) + \<bar>c - A * h\<bar>"
    using step[OF kn] IH by linarith
  also have "\<dots> = real (Suc k) * (\<bar>c - A * h\<bar> + ev)" by (simp add: algebra_simps)
  finally show ?case .
qed

lemma perturbed_position:
  fixes vq sq :: "nat \<Rightarrow> real"
  assumes v0: "vq 0 = u" and s0: "sq 0 = s0" and h: "0 < h"
    and stepv: "\<And>k. k < n \<Longrightarrow> \<bar>vq (Suc k) - (vq k + c)\<bar> \<le> ev"
    and steps: "\<And>k. k < n \<Longrightarrow> \<bar>sq (Suc k) - (sq k + vq k * t)\<bar> \<le> esp"
    and neg: "\<And>k. k < n \<Longrightarrow> u \<le> vq k \<and> vq k < 0"
    and k: "k \<le> n"
  shows "\<bar>sq k - (s0 + real k * u * h + A * h * h * (real k * (real k - 1) / 2))\<bar>
     \<le> real k * (esp + \<bar>u\<bar> * \<bar>t - h\<bar>) + h * (\<bar>c - A * h\<bar> + ev) * (real k * (real k - 1) / 2)"
  using k
proof (induction k)
  case 0
  then show ?case by (simp add: s0)
next
  case (Suc k)
  define G where "G = \<bar>c - A * h\<bar> + ev"
  define B where "B = esp + \<bar>u\<bar> * \<bar>t - h\<bar>"
  define Sx where "Sx = (\<lambda>k. s0 + real k * u * h + A * h * h * (real k * (real k - 1) / 2))"
  define Vx where "Vx = u + real k * (A * h)"
  from Suc have IH: "\<bar>sq k - Sx k\<bar> \<le> real k * B + h * G * (real k * (real k - 1) / 2)"
    and kn: "k < n" by (simp_all add: G_def B_def Sx_def)
  have ve: "\<bar>vq k - Vx\<bar> \<le> real k * G"
    unfolding Vx_def G_def by (rule perturbed_velocity[OF v0 stepv]) (use kn in auto)
  have vb: "\<bar>vq k\<bar> \<le> \<bar>u\<bar>" using neg[OF kn] by simp
  have sx: "Sx (Suc k) = Sx k + Vx * h" by (simp add: Sx_def Vx_def field_simps)
  have "vq k * t - Vx * h = vq k * (t - h) + (vq k - Vx) * h" by (simp add: algebra_simps)
  then have "\<bar>vq k * t - Vx * h\<bar> \<le> \<bar>vq k * (t - h)\<bar> + \<bar>(vq k - Vx) * h\<bar>" by linarith
  also have "\<bar>vq k * (t - h)\<bar> \<le> \<bar>u\<bar> * \<bar>t - h\<bar>"
    unfolding abs_mult using vb by (intro mult_right_mono) simp_all
  also have "\<bar>(vq k - Vx) * h\<bar> \<le> real k * G * h"
    unfolding abs_mult using ve h by (simp add: mult_right_mono)
  finally have cross: "\<bar>vq k * t - Vx * h\<bar> \<le> \<bar>u\<bar> * \<bar>t - h\<bar> + real k * G * h" by simp
  have "sq (Suc k) - Sx (Suc k)
      = (sq (Suc k) - (sq k + vq k * t)) + (sq k - Sx k) + (vq k * t - Vx * h)"
    unfolding sx by simp
  then have "\<bar>sq (Suc k) - Sx (Suc k)\<bar>
      \<le> \<bar>sq (Suc k) - (sq k + vq k * t)\<bar> + \<bar>sq k - Sx k\<bar> + \<bar>vq k * t - Vx * h\<bar>"
    by linarith
  also have "\<dots> \<le> esp + (real k * B + h * G * (real k * (real k - 1) / 2))
      + (\<bar>u\<bar> * \<bar>t - h\<bar> + real k * G * h)"
    using steps[OF kn] IH cross by linarith
  also have "\<dots> = real (Suc k) * B + h * G * (real (Suc k) * (real (Suc k) - 1) / 2)"
    by (simp add: B_def field_simps)
  finally show ?case by (simp add: G_def B_def Sx_def)
qed

lemma closed_form_gap:
  fixes A h u :: real
  assumes A: "0 < A"
  shows "(s0 + real n * u * h + A * h * h * (real n * (real n - 1) / 2)) - (s0 - u * u / (2 * A))
     = (u + real n * (A * h)) * (u + real n * (A * h) - A * h) / (2 * A) + h * u / 2"
  using A by (simp add: field_simps)

lemma perturbed_euler_bound:
  fixes vq sq :: "nat \<Rightarrow> real"
  assumes A: "0 < A" and h: "0 < h" and u: "u < 0"
    and v0: "vq 0 = u" and s0: "sq 0 = s0"
    and stepv: "\<And>k. k < n \<Longrightarrow> \<bar>vq (Suc k) - (vq k + c)\<bar> \<le> ev"
    and steps: "\<And>k. k < n \<Longrightarrow> \<bar>sq (Suc k) - (sq k + vq k * t)\<bar> \<le> esp"
    and neg: "\<And>k. k < n \<Longrightarrow> u \<le> vq k \<and> vq k < 0"
    and stop: "0 \<le> vq n"
  defines "G \<equiv> \<bar>c - A * h\<bar> + ev"
  defines "E \<equiv> real n * G"
  defines "M \<equiv> max \<bar>u\<bar> E"
  shows "\<bar>sq n - (s0 - u * u / (2 * A))\<bar>
     \<le> h * \<bar>u\<bar> + (real n * (esp + \<bar>u\<bar> * \<bar>t - h\<bar>) + h * G * (real n * (real n - 1) / 2)
          + h * (M - \<bar>u\<bar>) / 2 + E * M / (2 * A))"
proof -
  have n0: "n \<noteq> 0" using stop v0 u by (cases n) auto
  then obtain m where nm: "n = Suc m" by (cases n) auto
  have ev0: "0 \<le> ev" using stepv[of m] nm by simp
  have G0: "0 \<le> G" unfolding G_def using ev0 by simp
  have E0: "0 \<le> E" unfolding E_def using G0 by simp
  define x where "x = u + real n * (A * h)"
  define y where "y = x - A * h"
  define Sx where "Sx = s0 + real n * u * h + A * h * h * (real n * (real n - 1) / 2)"
  have "\<bar>vq n - x\<bar> \<le> E"
    unfolding x_def E_def G_def by (rule perturbed_velocity[OF v0 stepv]) auto
  with stop have xlo: "- E \<le> x" by linarith
  have ym: "y = u + real m * (A * h)" by (simp add: y_def x_def nm algebra_simps)
  have "\<bar>vq m - y\<bar> \<le> real m * G"
    unfolding ym G_def by (rule perturbed_velocity[OF v0 stepv]) (use nm in auto)
  moreover have "real m * G \<le> E" unfolding E_def nm using G0 by (simp add: mult_right_mono)
  moreover have "vq m < 0" using neg[of m] nm by simp
  ultimately have yhi: "y \<le> E" by linarith
  have ylo: "u \<le> y" unfolding ym using A h by simp
  have yM: "\<bar>y\<bar> \<le> M" unfolding M_def using ylo yhi u by (simp add: abs_le_iff max_def)
  have M0: "0 \<le> M" unfolding M_def by simp
  have Ah: "0 < A * h" using A h by simp
  have xhi: "x \<le> E + A * h" using yhi by (simp add: y_def)
  have xabs: "\<bar>x\<bar> \<le> A * h + E" using xlo xhi Ah by (simp add: abs_le_iff)
  have "\<bar>x * y\<bar> \<le> (A * h + E) * M"
    unfolding abs_mult using xabs yM by (intro mult_mono) simp_all
  then have "\<bar>x * y / (2 * A)\<bar> \<le> (A * h + E) * M / (2 * A)"
    using A by (simp add: abs_divide divide_right_mono)
  also have "\<dots> = h * M / 2 + E * M / (2 * A)" using A by (simp add: field_simps)
  finally have xy: "\<bar>x * y / (2 * A)\<bar> \<le> h * M / 2 + E * M / (2 * A)" .
  have gap: "Sx - (s0 - u * u / (2 * A)) = x * y / (2 * A) + h * u / 2"
    unfolding Sx_def x_def y_def by (rule closed_form_gap[OF A])
  have "\<bar>h * u / 2\<bar> = h * \<bar>u\<bar> / 2" using h by (simp add: abs_mult)
  with xy gap have ideal: "\<bar>Sx - (s0 - u * u / (2 * A))\<bar> \<le> h * M / 2 + E * M / (2 * A) + h * \<bar>u\<bar> / 2"
    by linarith
  have track: "\<bar>sq n - Sx\<bar>
      \<le> real n * (esp + \<bar>u\<bar> * \<bar>t - h\<bar>) + h * G * (real n * (real n - 1) / 2)"
    unfolding Sx_def G_def
    by (rule perturbed_position[OF v0 s0 h stepv steps neg]) auto
  have "\<bar>sq n - (s0 - u * u / (2 * A))\<bar> \<le> \<bar>sq n - Sx\<bar> + \<bar>Sx - (s0 - u * u / (2 * A))\<bar>"
    by linarith
  also have "\<dots> \<le> real n * (esp + \<bar>u\<bar> * \<bar>t - h\<bar>) + h * G * (real n * (real n - 1) / 2)
      + (h * M / 2 + E * M / (2 * A) + h * \<bar>u\<bar> / 2)"
    using track ideal by linarith
  also have "\<dots> = h * \<bar>u\<bar> + (real n * (esp + \<bar>u\<bar> * \<bar>t - h\<bar>) + h * G * (real n * (real n - 1) / 2)
          + h * (M - \<bar>u\<bar>) / 2 + E * M / (2 * A))"
    by (simp add: field_simps)
  finally show ?thesis .
qed

section \<open>A run on doubles as a perturbed recurrence\<close>

lemma velocity_step:
  assumes u: "is_double u" and w: "is_double w" "u \<le> w" "w < 0" and c: "is_double c" "0 \<le> c"
  obtains w' where "rnd (w + c) = Fin w'" "is_double w'" "u \<le> w'"
    "\<bar>w' - (w + c)\<bar> \<le> max (quantum u) (quantum c) / 2"
proof -
  have "w \<le> w + c" "w + c \<le> c" using w(3) c(2) by simp_all
  from rnd_between[OF w(1) c(1) this] obtain w' where w': "rnd (w + c) = Fin w'" "w \<le> w'" "is_double w'"
    by blast
  have "u \<le> w + c" using w(2) c(2) by simp
  from quantum_between[OF this \<open>w + c \<le> c\<close>] rnd_error[OF w'(1)]
  have "\<bar>w' - (w + c)\<bar> \<le> max (quantum u) (quantum c) / 2" by simp
  with w' w(2) show ?thesis by (intro that[of w']) simp_all
qed

lemma displacement_step:
  assumes u: "is_double u" and w: "is_double w" "u \<le> w" "w < 0"
    and t: "0 < t" "t \<le> 1"
  obtains p where "rnd (w * t) = Fin p" "p \<le> 0" "\<bar>p - w * t\<bar> \<le> quantum (u * t) / 2"
proof -
  have "w \<le> w * t" using w(3) t by (simp add: mult_le_cancel_left1)
  moreover have "w * t \<le> 0" using w(3) t(1) by (simp add: mult_le_0_iff)
  ultimately obtain p where p: "rnd (w * t) = Fin p" "p \<le> 0"
    using rnd_between[OF w(1) is_double_0] by blast
  have "\<bar>w * t\<bar> \<le> \<bar>u * t\<bar>" unfolding abs_mult using w(2,3) t(1) by (intro mult_right_mono) simp_all
  from quantum_mono[OF this] rnd_error[OF p(1)] have "\<bar>p - w * t\<bar> \<le> quantum (u * t) / 2" by simp
  with p show ?thesis by (intro that[of p]) simp_all
qed

lemma tracked_step:
  assumes u: "is_double u" and c: "is_double c" "0 \<le> c" and t: "0 < t" "t \<le> 1"
    and inc: "dbl_mul a (Fin t) = Fin c"
    and s: "is_double s" and v: "is_double v" "u \<le> v" "v < 0"
  obtains (fin) s' v' where "euler_step_f64 a (Fin t) (Fin s, Fin v) = (Fin s', Fin v')"
      "is_double s'" "is_double v'" "s' \<le> s" "u \<le> v'"
      "\<bar>v' - (v + c)\<bar> \<le> max (quantum u) (quantum c) / 2"
      "\<bar>s' - (s + v * t)\<bar> \<le> quantum s' / 2 + quantum (u * t) / 2"
  | (inf) v' where "euler_step_f64 a (Fin t) (Fin s, Fin v) = (MInf, v')"
proof -
  obtain v' where v': "rnd (v + c) = Fin v'" "is_double v'" "u \<le> v'"
    "\<bar>v' - (v + c)\<bar> \<le> max (quantum u) (quantum c) / 2"
    by (rule velocity_step[OF u v c])
  obtain p where p: "rnd (v * t) = Fin p" "p \<le> 0" "\<bar>p - v * t\<bar> \<le> quantum (u * t) / 2"
    by (rule displacement_step[OF u v t])
  have step: "euler_step_f64 a (Fin t) (Fin s, Fin v) = (rnd (s + p), Fin v')"
    by (simp add: euler_step_f64_def inc p(1) v'(1))
  have "s + p \<le> s" using p(2) by simp
  from rnd_le[OF s this] show ?thesis
  proof (cases rule: dbl_le_Fin_right)
    case (1 s')
    have "\<bar>s' - (s + p)\<bar> \<le> quantum s' / 2" using 1(1) by (rule rnd_error_result)
    with p(3) have "\<bar>s' - (s + v * t)\<bar> \<le> quantum s' / 2 + quantum (u * t) / 2" by linarith
    with step 1 v' rnd_is_double[OF 1(1)] show ?thesis by (intro fin[of s' v']) simp_all
  next
    case 2
    with step show ?thesis by (intro inf[of "Fin v'"]) simp
  qed
qed

lemma run_stays_finite:
  assumes s: "is_double s0" and u: "is_double u" "u < 0" and c: "is_double c" "0 \<le> c"
    and t: "0 < t" "t \<le> 1" and inc: "dbl_mul a (Fin t) = Fin c"
    and run: "euler_loop_f64 a (Fin t) (Fin s0, Fin u) 0 = Some (Fin r, n)"
    and k: "k \<le> n"
  shows "\<exists>s v. (euler_step_f64 a (Fin t) ^^ k) (Fin s0, Fin u) = (Fin s, Fin v)
      \<and> is_double s \<and> is_double v \<and> r \<le> s \<and> s \<le> s0 \<and> u \<le> v"
  using k
proof (induction k)
  case 0
  from position_never_increases[OF run t(1), of s0] s have "r \<le> s0" by (simp add: at_most_iff)
  with s u show ?case by simp
next
  case (Suc k)
  let ?step = "euler_step_f64 a (Fin t)"
  from Suc obtain s v where st: "(?step ^^ k) (Fin s0, Fin u) = (Fin s, Fin v)"
    and d: "is_double s" "is_double v" and b: "r \<le> s" "s \<le> s0" "u \<le> v" and kn: "k < n"
    by auto
  from loop_f64_trace[OF run] have tr: "fst ((?step ^^ n) (Fin s0, Fin u)) = Fin r"
    "\<forall>j<n. dbl_below_zero (snd ((?step ^^ j) (Fin s0, Fin u)))"
    by auto
  from tr(2) kn st have neg: "v < 0" by (auto dest: spec[of _ k])
  have "\<forall>j<Suc k. dbl_below_zero (snd ((?step ^^ j) (Fin s0, Fin u)))" using tr(2) kn by simp
  from loop_f64_run[OF this, of 0] run
  have later: "euler_loop_f64 a (Fin t) ((?step ^^ Suc k) (Fin s0, Fin u)) (Suc k) = Some (Fin r, n)"
    by simp
  have next_st: "(?step ^^ Suc k) (Fin s0, Fin u) = ?step (Fin s, Fin v)" by (simp add: st)
  from u(1) c t inc d(1) d(2) b(3) neg show ?case
  proof (cases rule: tracked_step)
    case (fin s' v')
    have nx: "(?step ^^ Suc k) (Fin s0, Fin u) = (Fin s', Fin v')" unfolding next_st by (rule fin(1))
    have "at_most s' (fst ((?step ^^ Suc k) (Fin s0, Fin u)))"
      unfolding nx using fin(2) by (simp add: at_most_iff)
    from position_never_increases[OF later t(1) this] have "r \<le> s'" by (simp add: at_most_iff)
    with fin b(2) show ?thesis unfolding nx by simp
  next
    case (inf v')
    have nx: "(?step ^^ Suc k) (Fin s0, Fin u) = (MInf, v')" unfolding next_st by (rule inf)
    have "at_most (r - 1) (fst ((?step ^^ Suc k) (Fin s0, Fin u)))"
      unfolding nx by (simp add: at_most_iff)
    from position_never_increases[OF later t(1) this] have "r \<le> r - 1" by (simp add: at_most_iff)
    then show ?thesis by simp
  qed
qed

lemma run_tracks:
  assumes s: "is_double s0" and u: "is_double u" "u < 0" and c: "is_double c" "0 \<le> c"
    and t: "0 < t" "t \<le> 1" and inc: "dbl_mul a (Fin t) = Fin c"
    and run: "euler_loop_f64 a (Fin t) (Fin s0, Fin u) 0 = Some (Fin r, n)"
  shows "\<exists>vq sq. vq 0 = u \<and> sq 0 = s0 \<and> sq n = r \<and> 0 \<le> vq n
     \<and> (\<forall>k<n. u \<le> vq k \<and> vq k < 0
          \<and> \<bar>vq (Suc k) - (vq k + c)\<bar> \<le> max (quantum u) (quantum c) / 2
          \<and> \<bar>sq (Suc k) - (sq k + vq k * t)\<bar>
               \<le> max (quantum s0) (quantum r) / 2 + quantum (u * t) / 2)"
proof -
  define st where "st = (\<lambda>k. (euler_step_f64 a (Fin t) ^^ k) (Fin s0, Fin u))"
  define vq where "vq = (\<lambda>k. fin_val (snd (st k)))"
  define sq where "sq = (\<lambda>k. fin_val (fst (st k)))"
  have fin: "\<exists>s v. st k = (Fin s, Fin v)
      \<and> is_double s \<and> is_double v \<and> r \<le> s \<and> s \<le> s0 \<and> u \<le> v" if "k \<le> n" for k
    unfolding st_def using s u c t inc run that by (rule run_stays_finite)
  have st_Suc: "st (Suc k) = euler_step_f64 a (Fin t) (st k)" for k by (simp add: st_def)
  from loop_f64_trace[OF run] have tr: "fst (st n) = Fin r" "\<not> dbl_below_zero (snd (st n))"
    "\<forall>j<n. dbl_below_zero (snd (st j))"
    unfolding st_def by auto
  have v0: "vq 0 = u" and s0: "sq 0 = s0" by (simp_all add: vq_def sq_def st_def fin_val_def)
  have sn: "sq n = r" by (simp add: sq_def tr(1) fin_val_def)
  have stop: "0 \<le> vq n"
  proof -
    from fin[of n] obtain s v where "st n = (Fin s, Fin v)" by blast
    with tr(2) show ?thesis by (simp add: vq_def fin_val_def)
  qed
  have steps: "u \<le> vq k \<and> vq k < 0
          \<and> \<bar>vq (Suc k) - (vq k + c)\<bar> \<le> max (quantum u) (quantum c) / 2
          \<and> \<bar>sq (Suc k) - (sq k + vq k * t)\<bar>
               \<le> max (quantum s0) (quantum r) / 2 + quantum (u * t) / 2" if kn: "k < n" for k
  proof -
    from fin[of k] kn obtain s v where k: "st k = (Fin s, Fin v)" "is_double s" "is_double v" "u \<le> v"
      by auto
    from fin[of "Suc k"] kn obtain s' v' where k': "st (Suc k) = (Fin s', Fin v')"
      "r \<le> s'" "s' \<le> s0" by auto
    from tr(3) kn k(1) have neg: "v < 0" by (auto dest: spec[of _ k])
    have nx: "euler_step_f64 a (Fin t) (Fin s, Fin v) = (Fin s', Fin v')"
      using k'(1) unfolding st_Suc k(1) .
    from u(1) c t inc k(2) k(3) k(4) neg
    have "\<bar>v' - (v + c)\<bar> \<le> max (quantum u) (quantum c) / 2
        \<and> \<bar>s' - (s + v * t)\<bar> \<le> quantum s' / 2 + quantum (u * t) / 2"
    proof (cases rule: tracked_step)
      case (fin s'' v'')
      with nx show ?thesis by simp
    next
      case (inf v'')
      with nx show ?thesis by simp
    qed
    moreover have "quantum s' \<le> max (quantum s0) (quantum r)"
      using quantum_between[OF k'(2,3)] by (simp add: max.commute)
    ultimately show ?thesis using k(4) neg
      by (simp add: vq_def sq_def k(1) k'(1) fin_val_def)
  qed
  from v0 s0 sn stop steps show ?thesis by blast
qed

lemma run_error:
  assumes s: "is_double s0" and u: "is_double u" "u < 0" and al: "is_double alpha" "0 < alpha"
    and t: "rnd 0.001 = Fin t"
    and inc: "dbl_mul (dbl_mul (Fin alpha) (rnd 9.8)) (rnd 0.001) = Fin c"
    and run: "euler_loop_f64 (dbl_mul (Fin alpha) (rnd 9.8)) (rnd 0.001) (Fin s0, Fin u) 0 = Some (Fin r, n)"
  shows "\<bar>r - sr s0 u alpha 9.8\<bar> \<le> 0.001 * \<bar>u\<bar> + rounding_slack s0 u alpha t c r n"
proof -
  obtain t' where t': "rnd 0.001 = Fin t'" "2 powi (- 10) \<le> t'" "t' \<le> 2 powi (- 9)" by (rule dt_lit)
  have tt: "t' = t" using t t'(1) by simp
  have t0: "0 < t" using t by (rule dt_pos)
  have t1: "t \<le> 1" using t'(3) unfolding tt by simp
  note c = increment_nonneg[OF al inc]
  define a where "a = dbl_mul (Fin alpha) (rnd 9.8)"
  have inc': "dbl_mul a (Fin t) = Fin c" using inc unfolding a_def t .
  have run': "euler_loop_f64 a (Fin t) (Fin s0, Fin u) 0 = Some (Fin r, n)"
    using run unfolding a_def t .
  from run_tracks[OF s u c(2,1) t0 t1 inc' run']
  obtain vq sq where q: "vq 0 = u" "sq 0 = s0" "sq n = r" "0 \<le> vq n"
    and st: "\<And>k. k < n \<Longrightarrow> u \<le> vq k \<and> vq k < 0
          \<and> \<bar>vq (Suc k) - (vq k + c)\<bar> \<le> max (quantum u) (quantum c) / 2
          \<and> \<bar>sq (Suc k) - (sq k + vq k * t)\<bar>
               \<le> max (quantum s0) (quantum r) / 2 + quantum (u * t) / 2"
    by blast
  have A: "0 < alpha * 9.8" using al(2) by simp
  have h: "(0::real) < 0.001" by simp
  have "\<bar>sq n - (s0 - u * u / (2 * (alpha * 9.8)))\<bar>
     \<le> 0.001 * \<bar>u\<bar> + (real n * (max (quantum s0) (quantum r) / 2 + quantum (u * t) / 2
            + \<bar>u\<bar> * \<bar>t - 0.001\<bar>)
          + 0.001 * (\<bar>c - alpha * 9.8 * 0.001\<bar> + max (quantum u) (quantum c) / 2)
              * (real n * (real n - 1) / 2)
          + 0.001 * (max \<bar>u\<bar> (real n * (\<bar>c - alpha * 9.8 * 0.001\<bar> + max (quantum u) (quantum c) / 2))
              - \<bar>u\<bar>) / 2
          + real n * (\<bar>c - alpha * 9.8 * 0.001\<bar> + max (quantum u) (quantum c) / 2)
              * max \<bar>u\<bar> (real n * (\<bar>c - alpha * 9.8 * 0.001\<bar> + max (quantum u) (quantum c) / 2))
              / (2 * (alpha * 9.8)))"
  proof (rule perturbed_euler_bound[where vq = vq and sq = sq and n = n and c = c and t = t,
        OF A h u(2) q(1) q(2)])
    show "\<And>k. k < n \<Longrightarrow> \<bar>vq (Suc k) - (vq k + c)\<bar> \<le> max (quantum u) (quantum c) / 2"
      using st by blast
    show "\<And>k. k < n \<Longrightarrow> \<bar>sq (Suc k) - (sq k + vq k * t)\<bar>
        \<le> max (quantum s0) (quantum r) / 2 + quantum (u * t) / 2"
      using st by blast
    show "\<And>k. k < n \<Longrightarrow> u \<le> vq k \<and> vq k < 0" using st by blast
    show "0 \<le> vq n" by (rule q(4))
  qed
  then show ?thesis
    unfolding q(3) sr_def rounding_slack_def Let_def by (simp only: mult.assoc)
qed

section \<open>Properties of the forward simulator\<close>

text \<open>
  Claim C5. If the initial velocity is already non-negative, \<open>restingPosition\<close> returns
  the initial position at once: the loop body is not entered (zero passes), whatever the
  position and the friction coefficient are.
\<close>

theorem C5_nonneg_velocity_returns_input:
  "0 \<le> v \<Longrightarrow> restingPosition s v alpha = Some s \<and> restingIterations s v alpha = Some 0"
  by (simp add: restingPosition_def restingIterations_def loop_stop)

theorem C5_witness:
  "(0::real) \<le> 0 \<and> restingPosition 0.618 0 0.01 = Some 0.618
     \<and> restingIterations 0.618 0 0.01 = Some 0"
  using C5_nonneg_velocity_returns_input[of 0 "0.618" "0.01"] by simp

text \<open>
  Claim C7. With friction coefficient \<open>alpha = 0\<close> the velocity variable is left unchanged
  by every pass through the loop body: after any number of passes it still equals the
  initial velocity, for every initial position and velocity.
\<close>

theorem C7_zero_friction_velocity_constant:
  "snd (sim_state s v 0 (Suc n)) = snd (sim_state s v 0 n) \<and> snd (sim_state s v 0 n) = v"
  by (simp add: sim_state_def steps_closed del: funpow.simps)



text \<open>
  Claim C6, amended. On doubles, for every finite initial velocity \<open>v < 0\<close>: with a
  friction coefficient \<open>alpha \<le> 0\<close> the loop never ends and \<open>restingPosition\<close> does not
  return (the source has no guard for that case); with \<open>alpha > 0\<close> the loop ends after
  finitely many passes, and \<open>restingPosition\<close> returns, whenever the increment that a
  pass adds to the velocity, the double of \<open>(alpha * g) * dt\<close>, is at least the spacing
  of the doubles at \<open>v\<close>.
\<close>

theorem C6_loop_ends_when_increment_registers:
  "(is_double v \<and> v < 0 \<and> is_double alpha \<and> alpha \<le> 0 \<longrightarrow>
      restingPosition_f64 s (Fin v) (Fin alpha) = None)
   \<and> (is_double v \<and> v < 0 \<and> is_double alpha \<and> 0 < alpha
        \<and> dbl_le (Fin (quantum v)) (dbl_mul (dbl_mul (Fin alpha) (rnd 9.8)) (rnd 0.001)) \<longrightarrow>
      (\<exists>r. restingPosition_f64 s (Fin v) (Fin alpha) = Some r))"
proof (intro conjI impI)
  assume h: "is_double v \<and> v < 0 \<and> is_double alpha \<and> alpha \<le> 0"
  then have "at_most 0 (dbl_mul (dbl_mul (Fin alpha) (rnd 9.8)) (rnd 0.001))"
    by (intro nonpos_increment) simp_all
  from f64_runs_forever[OF _ _ this, of v s 0] h
  show "restingPosition_f64 s (Fin v) (Fin alpha) = None"
    by (simp add: restingPosition_f64_def Let_def)
next
  assume h: "is_double v \<and> v < 0 \<and> is_double alpha \<and> 0 < alpha
      \<and> dbl_le (Fin (quantum v)) (dbl_mul (dbl_mul (Fin alpha) (rnd 9.8)) (rnd 0.001))"
  then have "\<exists>r. euler_loop_f64 (dbl_mul (Fin alpha) (rnd 9.8)) (rnd 0.001) (s, Fin v) 0 = Some r"
    by (intro f64_terminates) simp_all
  then show "\<exists>r. restingPosition_f64 s (Fin v) (Fin alpha) = Some r"
    by (auto simp: restingPosition_f64_def Let_def)
qed

theorem C6_witness:
  "(is_double (- 1) \<and> (- 1 :: real) < 0 \<and> is_double 0 \<and> (0::real) \<le> 0)
   \<and> restingPosition_f64 (Fin 0) (Fin (- 1)) (Fin 0) = None
   \<and> (is_double (- 1) \<and> (- 1 :: real) < 0 \<and> is_double 1 \<and> (0::real) < 1
        \<and> dbl_le (Fin (quantum (- 1))) (dbl_mul (dbl_mul (Fin 1) (rnd 9.8)) (rnd 0.001)))
   \<and> (\<exists>r. restingPosition_f64 (Fin 0) (Fin (- 1)) (Fin 1) = Some r)"
proof -
  obtain ct where c: "dbl_mul (dbl_mul (Fin 1) (rnd 9.8)) (rnd 0.001) = Fin ct" "2 powi (- 7) \<le> ct"
    by (rule unit_increment)
  have "(2::real) powi (- 52) \<le> 2 powi (- 7)" by (simp only: powi2_le_iff; simp)
  with c(2) have inc: "dbl_le (Fin (quantum (- 1))) (dbl_mul (dbl_mul (Fin 1) (rnd 9.8)) (rnd 0.001))"
    unfolding c(1) quantum_m1 by simp
  show ?thesis
    using C6_loop_ends_when_increment_registers[of "- 1" 0 "Fin 0"]
      C6_loop_ends_when_increment_registers[of "- 1" 1 "Fin 0"] inc
      is_double_m1 is_double_0 is_double_1
    by simp
qed

text \<open>
  Claim C6 as stated fails at \<open>v = -1e17\<close>, \<open>alpha = 1\<close>: the doubles next to \<open>-1e17\<close> are
  \<open>16\<close> apart, the sum of \<open>v\<close> and the increment \<open>a * dt\<close> (about \<open>0.0098\<close>) rounds back to
  \<open>v\<close>, and the loop never ends although \<open>v < 0\<close> and \<open>alpha > 0\<close>.
\<close>

theorem C6_counterexample:
  "is_double (- 100000000000000000) \<and> (- 100000000000000000 :: real) < 0 \<and> is_double 1 \<and> (0::real) < 1
   \<and> restingPosition_f64 (Fin 0) (Fin (- 100000000000000000)) (Fin 1) = None"
proof -
  obtain ct where c: "dbl_mul (dbl_mul (Fin 1) (rnd 9.8)) (rnd 0.001) = Fin ct"
    "2 powi (- 7) \<le> ct" "ct \<le> 2 powi (- 5)"
    by (rule unit_increment)
  define V :: real where "V = - 100000000000000000"
  have ct: "0 \<le> ct" "ct \<le> 1 / 32" using c(2,3) by simp_all
  have absorb: "rnd (V + ct) = Fin V"
  proof (rule rnd_absorb[where e = 4 and k = "- 6250000000000000"])
    show "qexp (V + ct) = 4"
      using qexp_eq[of 56 "V + ct"] ct by (simp add: V_def abs_if)
    show "V = of_int (- 6250000000000000) * 2 powi 4" by (simp add: V_def)
    show "\<bar>V + ct - V\<bar> < 2 powi 4 / 2" using ct by simp
    show "\<bar>V\<bar> < 2 powi 1024" by (rule small_lt_huge) (simp_all add: V_def)
  qed
  have "euler_loop_f64 (dbl_mul (Fin 1) (rnd 9.8)) (rnd 0.001) (Fin 0, Fin V) 0 = None"
  proof (rule loop_f64_diverges[where I = "\<lambda>st. snd st = Fin V"])
    show "snd (Fin 0, Fin V) = Fin V" by simp
  next
    fix st :: "dbl \<times> dbl"
    assume "snd st = Fin V"
    then show "dbl_below_zero (snd st) \<and>
        snd (euler_step_f64 (dbl_mul (Fin 1) (rnd 9.8)) (rnd 0.001) st) = Fin V"
      unfolding euler_step_f64_def snd_conv c(1) by (simp only: dbl_add.simps absorb; simp add: V_def)
  qed
  then have "restingPosition_f64 (Fin 0) (Fin V) (Fin 1) = None"
    by (simp add: restingPosition_f64_def Let_def)
  then show ?thesis using is_double_1e17 is_double_1 by (simp add: V_def)
qed


text \<open>
  Claim C10, amended. On doubles, for every finite initial position \<open>s\<close>, finite initial
  velocity \<open>v < 0\<close> and finite friction coefficient \<open>alpha > 0\<close>: \<open>restingPosition\<close> returns
  whenever the increment that a pass adds to the velocity is at least the spacing of the
  doubles at \<open>v\<close>; a value it returns is never above \<open>s\<close>, and it is strictly below \<open>s\<close>
  whenever the first position update \<open>s + v * dt\<close> is not rounded back to \<open>s\<close>.
\<close>

theorem C10_resting_position_not_above_start:
  assumes s: "is_double s" and v: "is_double v" "v < 0" and al: "is_double alpha" "0 < alpha"
  shows "(dbl_le (Fin (quantum v)) (dbl_mul (dbl_mul (Fin alpha) (rnd 9.8)) (rnd 0.001)) \<longrightarrow>
           (\<exists>r. restingPosition_f64 (Fin s) (Fin v) (Fin alpha) = Some r))
     \<and> (\<forall>r. restingPosition_f64 (Fin s) (Fin v) (Fin alpha) = Some r \<longrightarrow>
           dbl_le r (Fin s)
           \<and> (dbl_add (Fin s) (dbl_mul (Fin v) (rnd 0.001)) \<noteq> Fin s \<longrightarrow> r \<noteq> Fin s))"
proof (intro conjI impI allI)
  assume "dbl_le (Fin (quantum v)) (dbl_mul (dbl_mul (Fin alpha) (rnd 9.8)) (rnd 0.001))"
  with v have "\<exists>r. euler_loop_f64 (dbl_mul (Fin alpha) (rnd 9.8)) (rnd 0.001) (Fin s, Fin v) 0 = Some r"
    by (intro f64_terminates)
  then show "\<exists>r. restingPosition_f64 (Fin s) (Fin v) (Fin alpha) = Some r"
    by (auto simp: restingPosition_f64_def Let_def)
next
  fix r
  assume run: "restingPosition_f64 (Fin s) (Fin v) (Fin alpha) = Some r"
  from below_start[OF s v run] show "dbl_le r (Fin s)" by simp
  assume "dbl_add (Fin s) (dbl_mul (Fin v) (rnd 0.001)) \<noteq> Fin s"
  with below_start[OF s v run] show "r \<noteq> Fin s" by simp
qed

theorem C10_witness:
  "(is_double 1 \<and> is_double (- 1) \<and> (- 1 :: real) < 0 \<and> (0::real) < 1)
   \<and> dbl_le (Fin (quantum (- 1))) (dbl_mul (dbl_mul (Fin 1) (rnd 9.8)) (rnd 0.001))
   \<and> dbl_add (Fin 1) (dbl_mul (Fin (- 1)) (rnd 0.001)) \<noteq> Fin 1
   \<and> (\<exists>r. restingPosition_f64 (Fin 1) (Fin (- 1)) (Fin 1) = Some r \<and> dbl_le r (Fin 1) \<and> r \<noteq> Fin 1)"
proof -
  obtain ct where c: "dbl_mul (dbl_mul (Fin 1) (rnd 9.8)) (rnd 0.001) = Fin ct" "2 powi (- 7) \<le> ct"
    by (rule unit_increment)
  have "(2::real) powi (- 52) \<le> 2 powi (- 7)" by (simp only: powi2_le_iff; simp)
  with c(2) have inc: "dbl_le (Fin (quantum (- 1))) (dbl_mul (dbl_mul (Fin 1) (rnd 9.8)) (rnd 0.001))"
    unfolding c(1) quantum_m1 by simp
  obtain y where y: "dbl_add (Fin 1) (dbl_mul (Fin (- 1)) (rnd 0.001)) = Fin y" "y \<le> 1 - 2 powi (- 10)"
    by (rule first_step_m1)
  have moved: "dbl_add (Fin 1) (dbl_mul (Fin (- 1)) (rnd 0.001)) \<noteq> Fin 1"
    unfolding y(1) using y(2) by simp
  from C10_resting_position_not_above_start[OF is_double_1 is_double_m1 _ is_double_1] inc moved
  show ?thesis using is_double_1 is_double_m1 by auto
qed

text \<open>
  Claim C10 as stated fails at \<open>s = 1.0\<close>, \<open>v = -1e-20\<close>, \<open>alpha = 1.0\<close>: the update
  \<open>v * dt\<close> is about \<open>-1e-23\<close>, far below the spacing \<open>2 ^ (-53)\<close> of the doubles under
  \<open>1\<close>, so \<open>s + v * dt\<close> is rounded back to \<open>1.0\<close>; the velocity is positive after this
  one pass, and the value returned is \<open>s\<close> itself, not a value below \<open>s\<close>.
\<close>

theorem C10_counterexample:
  "is_double 1 \<and> dbl_below_zero (rnd (- 1 / 10 ^ 20)) \<and> (0::real) < 1
   \<and> restingPosition_f64 (Fin 1) (rnd (- 1 / 10 ^ 20)) (Fin 1) = Some (Fin 1)"
proof -
  obtain v0 where v0: "rnd (- 1 / 10 ^ 20) = Fin v0" "- (2 powi (- 66)) \<le> v0" "v0 \<le> - (2 powi (- 67))"
    by (rule tiny_velocity)
  obtain t where t: "rnd 0.001 = Fin t" "2 powi (- 10) \<le> t" "t \<le> 2 powi (- 9)"
    by (rule dt_lit)
  obtain ct where c: "dbl_mul (dbl_mul (Fin 1) (rnd 9.8)) (rnd 0.001) = Fin ct" "2 powi (- 7) \<le> ct"
    by (rule unit_increment)
  have neg: "v0 < 0" using v0(3) by simp
  have t0: "0 < t" using t(2) by simp
  have lo: "is_double (- (2 powi (- 75)))" by (rule is_double_minus[OF is_double_pow2]) simp_all
  have "- (2 powi (- 75)) \<le> v0 * t"
  proof -
    have "- v0 * t \<le> 2 powi (- 66) * 2 powi (- 9)"
      using v0(2) t(3) t0 neg by (intro mult_mono) simp_all
    then show ?thesis by simp
  qed
  moreover have "v0 * t \<le> 0" using neg t0 by (simp add: mult_le_0_iff)
  ultimately obtain p where p: "rnd (v0 * t) = Fin p" "- (2 powi (- 75)) \<le> p" "p \<le> 0"
    using rnd_between[OF lo is_double_0] by blast
  have pos: "rnd (1 + p) = Fin 1"
  proof (cases "p = 0")
    case True
    then show ?thesis using rnd_double[OF is_double_1] by simp
  next
    case False
    with p(3) have p0: "p < 0" by simp
    show ?thesis
    proof (rule rnd_absorb[where e = "- 53" and k = "2 ^ 53"])
      show "qexp (1 + p) = - 53"
        using qexp_eq[of "- 1" "1 + p"] p0 p(2) by (simp add: abs_if)
      show "(1::real) = of_int (2 ^ 53) * 2 powi (- 53)" by simp
      show "\<bar>1 + p - 1\<bar> < 2 powi (- 53) / 2" using p0 p(2) by simp
      show "\<bar>1::real\<bar> < 2 powi 1024" by (rule small_lt_huge) simp_all
    qed
  qed
  have p8: "is_double (2 powi (- 8))" by (rule is_double_pow2) simp_all
  have "2 powi (- 8) \<le> v0 + ct" using v0(2) c(2) by simp
  from rnd_ge[OF p8 this] have stop: "\<not> dbl_below_zero (rnd (v0 + ct))"
    by (cases rule: dbl_le_Fin_left) simp_all
  have step: "euler_step_f64 (dbl_mul (Fin 1) (rnd 9.8)) (Fin t) (Fin 1, Fin v0) = (Fin 1, rnd (v0 + ct))"
    using c(1) unfolding t(1) euler_step_f64_def by (simp add: p(1) pos)
  have "euler_loop_f64 (dbl_mul (Fin 1) (rnd 9.8)) (Fin t) (Fin 1, Fin v0) 0
      = euler_loop_f64 (dbl_mul (Fin 1) (rnd 9.8)) (Fin t) (Fin 1, rnd (v0 + ct)) (Suc 0)"
    unfolding step[symmetric] by (rule loop_f64_pass) (use neg in simp)
  also have "\<dots> = Some (Fin 1, Suc 0)" using loop_f64_stop[of "(Fin 1, rnd (v0 + ct))"] stop by simp
  finally have "euler_loop_f64 (dbl_mul (Fin 1) (rnd 9.8)) (Fin t) (Fin 1, Fin v0) 0 = Some (Fin 1, Suc 0)" .
  then have "restingPosition_f64 (Fin 1) (Fin v0) (Fin 1) = Some (Fin 1)"
    unfolding restingPosition_f64_def Let_def t(1) by simp
  then show ?thesis unfolding v0(1) using is_double_1 neg by simp
qed

text \<open>
  Claim C3, amended. On doubles, for every finite initial position \<open>s0\<close>, finite initial
  velocity \<open>u < 0\<close> and finite friction coefficient \<open>alpha > 0\<close> for which the velocity
  increment \<open>c\<close>, the double of \<open>(alpha * g) * dt\<close>, is finite: \<open>restingPosition\<close> returns
  whenever \<open>c\<close> is at least the spacing of the doubles at \<open>u\<close>; and whenever it returns a
  finite position \<open>r\<close> after \<open>n\<close> passes, \<open>r\<close> differs from the closed form
  \<open>s0 - u\<^sup>2 / (2 * alpha * g)\<close> by at most the step size \<open>0.001\<close> times \<open>\<bar>u\<bar>\<close> plus the
  rounding accumulated over the \<open>n\<close> passes, \<open>rounding_slack s0 u alpha t c r n\<close>.
\<close>

theorem C3_simulator_matches_closed_form:
  assumes s: "is_double s0" and u: "is_double u" "u < 0" and al: "is_double alpha" "0 < alpha"
    and t: "rnd 0.001 = Fin t"
    and inc: "dbl_mul (dbl_mul (Fin alpha) (rnd 9.8)) (rnd 0.001) = Fin c"
  shows "(quantum u \<le> c \<longrightarrow>
           (\<exists>r n. restingPosition_f64 (Fin s0) (Fin u) (Fin alpha) = Some r
                \<and> restingIterations_f64 (Fin s0) (Fin u) (Fin alpha) = Some n))
     \<and> (\<forall>r n. restingPosition_f64 (Fin s0) (Fin u) (Fin alpha) = Some (Fin r)
             \<and> restingIterations_f64 (Fin s0) (Fin u) (Fin alpha) = Some n \<longrightarrow>
           \<bar>r - sr s0 u alpha 9.8\<bar> \<le> 0.001 * \<bar>u\<bar> + rounding_slack s0 u alpha t c r n)"
proof (intro conjI impI allI)
  assume "quantum u \<le> c"
  then have "dbl_le (Fin (quantum u)) (dbl_mul (dbl_mul (Fin alpha) (rnd 9.8)) (rnd 0.001))"
    unfolding inc by simp
  from f64_terminates[OF u this, of "Fin s0" 0]
  obtain r n where "euler_loop_f64 (dbl_mul (Fin alpha) (rnd 9.8)) (rnd 0.001) (Fin s0, Fin u) 0 = Some (r, n)"
    by auto
  from results_of_run[OF this]
  show "\<exists>r n. restingPosition_f64 (Fin s0) (Fin u) (Fin alpha) = Some r
      \<and> restingIterations_f64 (Fin s0) (Fin u) (Fin alpha) = Some n" by blast
next
  fix r n
  assume "restingPosition_f64 (Fin s0) (Fin u) (Fin alpha) = Some (Fin r)
      \<and> restingIterations_f64 (Fin s0) (Fin u) (Fin alpha) = Some n"
  then have "euler_loop_f64 (dbl_mul (Fin alpha) (rnd 9.8)) (rnd 0.001) (Fin s0, Fin u) 0 = Some (Fin r, n)"
    by (intro run_of_results) simp_all
  from run_error[OF s u al t inc this]
  show "\<bar>r - sr s0 u alpha 9.8\<bar> \<le> 0.001 * \<bar>u\<bar> + rounding_slack s0 u alpha t c r n" .
qed

theorem C3_witness:
  "\<exists>t c r. (is_double 1 \<and> is_double (- 1) \<and> (- 1 :: real) < 0 \<and> is_double 1024 \<and> (0::real) < 1024
       \<and> rnd 0.001 = Fin t \<and> dbl_mul (dbl_mul (Fin 1024) (rnd 9.8)) (rnd 0.001) = Fin c)
     \<and> quantum (- 1) \<le> c
     \<and> restingPosition_f64 (Fin 1) (Fin (- 1)) (Fin 1024) = Some (Fin r)
     \<and> restingIterations_f64 (Fin 1) (Fin (- 1)) (Fin 1024) = Some 1
     \<and> \<bar>r - sr 1 (- 1) 1024 9.8\<bar> \<le> 0.001 * \<bar>- 1\<bar> + rounding_slack 1 (- 1) 1024 t c r 1"
proof -
  obtain t where t: "rnd 0.001 = Fin t" "2 powi (- 10) \<le> t" "t \<le> 2 powi (- 9)" "is_double t"
    by (rule dt_lit)
  obtain c where c: "dbl_mul (dbl_mul (Fin 1024) (rnd 9.8)) (rnd 0.001) = Fin c" "4 \<le> c"
    by (rule strong_increment)
  obtain y where y: "dbl_add (Fin 1) (dbl_mul (Fin (- 1)) (rnd 0.001)) = Fin y"
    by (rule first_step_m1)
  have q: "quantum (- 1) \<le> c" unfolding quantum_m1 using c(2) by simp
  define a where "a = dbl_mul (Fin 1024) (rnd 9.8)"
  have p3: "is_double (2 powi 1)" by (rule is_double_pow2) simp_all
  have "2 powi 1 \<le> - 1 + c" using c(2) by simp
  from rnd_ge[OF p3 this] have stop: "\<not> dbl_below_zero (rnd (- 1 + c))"
    by (cases rule: dbl_le_Fin_left) simp_all
  have step: "euler_step_f64 a (rnd 0.001) (Fin 1, Fin (- 1)) = (Fin y, rnd (- 1 + c))"
    using c(1) y unfolding a_def euler_step_f64_def by simp
  have "euler_loop_f64 a (rnd 0.001) (Fin 1, Fin (- 1)) 0
      = euler_loop_f64 a (rnd 0.001) (Fin y, rnd (- 1 + c)) (Suc 0)"
    unfolding step[symmetric] by (rule loop_f64_pass) simp
  also have "\<dots> = Some (Fin y, Suc 0)" using loop_f64_stop[of "(Fin y, rnd (- 1 + c))"] stop by simp
  finally have run: "euler_loop_f64 (dbl_mul (Fin 1024) (rnd 9.8)) (rnd 0.001) (Fin 1, Fin (- 1)) 0
      = Some (Fin y, 1)" unfolding a_def by simp
  note res = results_of_run[OF run]
  from C3_simulator_matches_closed_form[OF is_double_1 is_double_m1 _ is_double_1024 _ t(1) c(1)] res
  have "\<bar>y - sr 1 (- 1) 1024 9.8\<bar> \<le> 0.001 * \<bar>- 1\<bar> + rounding_slack 1 (- 1) 1024 t c y 1"
    by simp
  with res q t(1) c(1) is_double_1 is_double_m1 is_double_1024 show ?thesis by auto
qed

text \<open>
  Claim C3 as stated fails on doubles at \<open>s0 = 3 * 2 ^ 44 = 52776558133248.0\<close>, \<open>u = -1\<close>,
  \<open>alpha = 1\<close>: the doubles next to \<open>s0\<close> are \<open>2 ^ (-7)\<close> apart, every position update
  \<open>s + v * dt\<close> of the run (at most \<open>2 ^ (-9)\<close> in magnitude) is rounded back to \<open>s0\<close>, and
  the simulator returns \<open>s0\<close> itself; the closed form is \<open>s0 - 1 / 19.6\<close>, at a distance of
  \<open>0.051\<close>, against the bound \<open>0.001 * \<bar>u\<bar> = 0.001\<close>.
\<close>

theorem C3_counterexample:
  "is_double 52776558133248 \<and> is_double (- 1) \<and> (- 1 :: real) < 0 \<and> is_double 1 \<and> (0::real) < 1
   \<and> restingPosition_f64 (Fin 52776558133248) (Fin (- 1)) (Fin 1) = Some (Fin 52776558133248)
   \<and> \<not> \<bar>52776558133248 - sr 52776558133248 (- 1) 1 9.8\<bar> \<le> 0.001 * \<bar>- 1 :: real\<bar>"
proof -
  obtain t where t: "rnd 0.001 = Fin t" "2 powi (- 10) \<le> t" "t \<le> 2 powi (- 9)"
    by (rule dt_lit)
  obtain ct where c: "dbl_mul (dbl_mul (Fin 1) (rnd 9.8)) (rnd 0.001) = Fin ct" "2 powi (- 7) \<le> ct"
    by (rule unit_increment)
  have t0: "0 < t" using t(2) by simp
  define a where "a = dbl_mul (Fin 1) (rnd 9.8)"
  have c': "dbl_mul a (Fin t) = Fin ct" using c(1) unfolding a_def t(1) .
  have "(2::real) powi (- 52) \<le> 2 powi (- 7)" by (simp only: powi2_le_iff; simp)
  with c(2) have inc: "dbl_le (Fin (quantum (- 1))) (dbl_mul a (Fin t))"
    unfolding c' quantum_m1 by simp
  from f64_terminates[OF is_double_m1 _ inc, of "Fin big_start" 0]
  obtain r where run: "euler_loop_f64 a (Fin t) (Fin big_start, Fin (- 1)) 0 = Some r" by auto
  have "\<exists>st'. (fst st' = Fin big_start \<and> dbl_le (Fin (- 1)) (snd st'))
      \<and> \<not> dbl_below_zero (snd st') \<and> fst r = fst st'"
  proof (rule loop_f64_invariant[where I = "\<lambda>st. fst st = Fin big_start \<and> dbl_le (Fin (- 1)) (snd st)",
        OF run])
    show "fst (Fin big_start, Fin (- 1)) = Fin big_start \<and> dbl_le (Fin (- 1)) (snd (Fin big_start, Fin (- 1)))"
      by simp
  next
    fix st :: "dbl \<times> dbl"
    assume I: "fst st = Fin big_start \<and> dbl_le (Fin (- 1)) (snd st)"
      and guard: "dbl_below_zero (snd st)"
    from I guard obtain w where w: "snd st = Fin w" "- 1 \<le> w" "w < 0"
      by (cases "snd st") auto
    have lo: "is_double (- (2 powi (- 9)))" by (rule is_double_minus[OF is_double_pow2]) simp_all
    have "- (2 powi (- 9)) \<le> w * t"
    proof -
      have "- w * t \<le> 1 * 2 powi (- 9)" using w(2,3) t(3) t0 by (intro mult_mono) simp_all
      then show ?thesis by simp
    qed
    moreover have "w * t \<le> 0" using w(3) t0 by (simp add: mult_le_0_iff)
    ultimately obtain p where p: "rnd (w * t) = Fin p" "- (2 powi (- 9)) \<le> p" "p \<le> 0"
      using rnd_between[OF lo is_double_0] by blast
    have pos: "fst (euler_step_f64 a (Fin t) st) = Fin big_start"
      using I big_start_absorbs[OF p(2,3)] by (simp add: euler_step_f64_def w(1) p(1))
    have "- 1 \<le> w + ct" using w(2) c(2) by (smt (verit) zero_le_power_int)
    from rnd_ge[OF is_double_m1 this]
    have vel: "dbl_le (Fin (- 1)) (snd (euler_step_f64 a (Fin t) st))"
      by (simp add: euler_step_f64_def w(1) c')
    from pos vel show "fst (euler_step_f64 a (Fin t) st) = Fin big_start
        \<and> dbl_le (Fin (- 1)) (snd (euler_step_f64 a (Fin t) st))" ..
  qed
  then have "fst r = Fin big_start" by auto
  with run have "restingPosition_f64 (Fin big_start) (Fin (- 1)) (Fin 1) = Some (Fin big_start)"
    unfolding restingPosition_f64_def Let_def t(1) a_def[symmetric] by simp
  moreover have "\<not> \<bar>52776558133248 - sr 52776558133248 (- 1) 1 9.8\<bar> \<le> 0.001 * \<bar>- 1 :: real\<bar>"
    by (simp add: sr_def)
  ultimately show ?thesis
    using big_start_double is_double_m1 is_double_1 by (simp add: big_start_def)
qed

text \<open>
  Claim C9. On the eight measurements the two-point estimate is \<open>s = data[0] = 0.618\<close>,
  \<open>u = (data[1] - data[0]) * 50 = -0.345\<close> and
  \<open>alpha = ((data[7] - data[6]) * 50 - u) / (6 * (1/50) * g)\<close>; the forward simulator run on
  it returns \<open>-0.0963225\<close>, a negative resting position that rounds to \<open>-0.0963\<close>, while the
  resting position derived from the least-squares fit of the same measurements is positive.
\<close>

theorem C9_two_point_estimate_rests_past_pocket:
  "est_s = data ! 0 \<and> est_s = 0.618
   \<and> est_v0 = (data ! 1 - data ! 0) * 50 \<and> est_v0 = - 0.345
   \<and> est_alpha = ((data ! 7 - data ! 6) * 50 - est_v0) / (6 * (1 / 50) * g_const)
   \<and> restingPosition est_s est_v0 est_alpha = Some (- 0.0963225)
   \<and> (- 0.0963225 :: real) < 0
   \<and> \<bar>- 0.0963225 - (- 0.0963)\<bar> \<le> (0.00005::real)
   \<and> kinematic_fit g_const fit_t data = Inr (5933 / 9600, - 11699 / 33600, 25 / 2352)
   \<and> 0 < sr (5933 / 9600) (- 11699 / 33600) (25 / 2352) g_const"
proof (intro conjI)
  show "est_s = data ! 0" by (simp add: est_s_def)
  show "est_s = 0.618" by (rule est_values)
  show "est_v0 = (data ! 1 - data ! 0) * 50" by (simp add: est_v0_def frame_period_def)
  show "est_v0 = - 0.345" by (rule est_values)
  show "est_alpha = ((data ! 7 - data ! 6) * 50 - est_v0) / (6 * (1 / 50) * g_const)"
    by (simp add: est_alpha_def est_v1_def frame_period_def)
  show "restingPosition est_s est_v0 est_alpha = Some (- 0.0963225)" by (rule est_rest)
  show "kinematic_fit g_const fit_t data = Inr (5933 / 9600, - 11699 / 33600, 25 / 2352)"
    by (rule fit_value)
  show "0 < sr (5933 / 9600) (- 11699 / 33600) (25 / 2352) g_const"
    by (simp add: sr_def g_const_def)
qed simp_all


section \<open>Properties of the kinematic fit\<close>

text \<open>
  Claim C1. For the eight measurements sampled at 50 per time unit and \<open>g = 9.8\<close>, the
  least-squares fit returns \<open>s0 = 5933/9600\<close>, \<open>u = -11699/33600\<close> and \<open>alpha = 25/2352\<close>,
  within \<open>10\<^sup>-\<^sup>4\<close> of \<open>0.61802\<close>, \<open>-0.34818\<close> and \<open>0.01063\<close>; the resting position
  \<open>s0 - u\<^sup>2 / (2 * alpha * g)\<close> derived from them is within \<open>10\<^sup>-\<^sup>3\<close> of \<open>0.03610\<close> and
  positive, and so is the one the notebook computes from the rounded literals.
\<close>

theorem C1_fit_of_measurements:
  "fit_t = sample_times (1 / 50) 8 \<and> g_const = 9.8
   \<and> kinematic_fit g_const fit_t data = Inr (5933 / 9600, - 11699 / 33600, 25 / 2352)
   \<and> \<bar>5933 / 9600 - 0.61802\<bar> \<le> (0.0001::real)
   \<and> \<bar>- 11699 / 33600 - (- 0.34818)\<bar> \<le> (0.0001::real)
   \<and> \<bar>25 / 2352 - 0.01063\<bar> \<le> (0.0001::real)
   \<and> \<bar>sr (5933 / 9600) (- 11699 / 33600) (25 / 2352) g_const - 0.03610\<bar> \<le> 0.001
   \<and> 0 < sr (5933 / 9600) (- 11699 / 33600) (25 / 2352) g_const
   \<and> \<bar>sr sr_s0 sr_u sr_alpha g_const - 0.03610\<bar> \<le> 0.001
   \<and> 0 < sr sr_s0 sr_u sr_alpha g_const"
proof (intro conjI)
  show "fit_t = sample_times (1 / 50) 8" by (rule fit_t_sample)
  show "g_const = 9.8" by (rule g_const_def)
  show "kinematic_fit g_const fit_t data = Inr (5933 / 9600, - 11699 / 33600, 25 / 2352)"
    by (rule fit_value)
  show "\<bar>sr (5933 / 9600) (- 11699 / 33600) (25 / 2352) g_const - 0.03610\<bar> \<le> 0.001"
    by (simp add: sr_def g_const_def)
  show "0 < sr (5933 / 9600) (- 11699 / 33600) (25 / 2352) g_const"
    by (simp add: sr_def g_const_def)
  show "\<bar>sr sr_s0 sr_u sr_alpha g_const - 0.03610\<bar> \<le> 0.001"
    by (simp add: sr_def g_const_def sr_s0_def sr_u_def sr_alpha_def)
  show "0 < sr sr_s0 sr_u sr_alpha g_const"
    by (simp add: sr_def g_const_def sr_s0_def sr_u_def sr_alpha_def)
qed simp_all




end
